theory Spec2Isabelle
  imports Complex_Main
begin

section \<open>Data model of the packets manager\<close>

text \<open>
  The theory embeds \<^verbatim>\<open>src/player/es_dash_player/packets_manager.cc\<close>.
  \<^verbatim>\<open>TimeTicks\<close> is a double in the program. The embedding reads a finite double
  as the real number it stands for, so the comparisons are those of the reals; the not-a-number
  and the infinities have no counterpart. The arithmetic on \<^verbatim>\<open>TimeTicks\<close> is
  that of doubles: the exact result rounded to the nearest double, ties to the even one
  (\<open>round_double\<close> below). The operations are taken one at a time: the lock
  \<^verbatim>\<open>packets_lock_\<close>, which makes them so in the program, has no counterpart here.
\<close>

type_synonym TimeTicks = real

text \<open>
  The nearest integer, ties to the even one.
\<close>

definition round_half_even :: "real \<Rightarrow> int" where
  "round_half_even r =
     (let f = \<lfloor>r\<rfloor>; d = r - of_int f
      in if d < 1 / 2 then f else if 1 / 2 < d then f + 1 else if even f then f else f + 1)"

text \<open>
  The distance between neighbouring doubles around \<open>x\<close>: a double has 53 binary
  digits, and the smallest distance, among the subnormal numbers, is \<open>2 powr - 1074\<close>.
\<close>

definition double_ulp :: "real \<Rightarrow> real" where
  "double_ulp x = 2 powr of_int (max (\<lfloor>log 2 \<bar>x\<bar>\<rfloor> - 52) (- 1074))"

text \<open>
  The double nearest to a real number, as the arithmetic of doubles rounds an exact result.
  A result beyond the largest double stands for the infinity of its sign; its comparisons
  with a finite double are the same.
\<close>

definition round_double :: "real \<Rightarrow> real" where
  "round_double x =
     (if x = 0 then 0 else of_int (round_half_even (x / double_ulp x)) * double_ulp x)"

text \<open>Subtraction and addition of \<^verbatim>\<open>TimeTicks\<close>.\<close>

definition TimeTicks_minus :: "TimeTicks \<Rightarrow> TimeTicks \<Rightarrow> TimeTicks" where
  "TimeTicks_minus a b = round_double (a - b)"

definition TimeTicks_plus :: "TimeTicks \<Rightarrow> TimeTicks \<Rightarrow> TimeTicks" where
  "TimeTicks_plus a b = round_double (a + b)"

datatype StreamType = Audio | Video

text \<open>
  An elementary-stream packet, as far as the manager looks at it: the decode timestamp
  (\<^verbatim>\<open>GetDts()\<close>), the keyframe flag (\<^verbatim>\<open>IsKeyFrame()\<close>) and the rest of
  the packet, which the manager never reads.
\<close>

record ElementaryStreamPacket =
  GetDts :: TimeTicks
  IsKeyFrame :: bool
  es_data :: "nat list"

text \<open>An entry of the priority queue \<^verbatim>\<open>packets_\<close>: the stream tag and the owned packet.\<close>

record BufferedStreamPacket =
  type :: StreamType
  packet :: ElementaryStreamPacket

text \<open>
  A sink (\<^verbatim>\<open>StreamManager\<close>) is a collaborator whose code is outside the file. The
  manager reads \<^verbatim>\<open>IsSeeking()\<close>, asks \<^verbatim>\<open>SetSegmentToTime\<close> for the segment
  (start, duration) that covers a time, and hands packets over with
  \<^verbatim>\<open>AppendPacket\<close>. The two queries are fields of the sink; every call that has an
  effect on a collaborator is recorded in the manager's list of calls.
\<close>

record StreamManager =
  IsSeeking :: bool
  SetSegmentToTime :: "TimeTicks \<Rightarrow> TimeTicks \<times> TimeTicks"

datatype log_message =
    ReceivedEOS
  | PacketForNonExistingStream StreamType
  | UnsupportedMessageType
  | SeekToVideoSegment TimeTicks TimeTicks
  | SeekToAudioSegment TimeTicks TimeTicks
  | SeekDataForNonExistingStream StreamType
  | SeekFinishing TimeTicks StreamType nat
  | InvalidStreamIndex StreamType

datatype call =
    AppendPacket StreamType ElementaryStreamPacket
  | SegmentToTime StreamType TimeTicks
  | LOG_DEBUG log_message
  | LOG_ERROR log_message

text \<open>The messages of the demultiplexer; \<open>kOtherMessage\<close> stands for every value of
  the enumeration that \<^verbatim>\<open>OnEsPacket\<close> sends to its \<^verbatim>\<open>default\<close> branch.\<close>

datatype Message = kEndOfStream | kAudioPkt | kVideoPkt | kOtherMessage

datatype error = AssertionFailed

text \<open>
  The fields of \<^verbatim>\<open>PacketsManager\<close>. The arrays indexed by the stream id are
  functions of the stream tag; an empty slot of \<^verbatim>\<open>streams_\<close> (a null pointer) is
  \<open>None\<close>. The priority queue is the list of its entries in the order in which
  \<^verbatim>\<open>top()\<close> and \<^verbatim>\<open>pop()\<close> produce them: \<^verbatim>\<open>top()\<close> is the head,
  \<^verbatim>\<open>pop()\<close> leaves the tail. \<open>calls\<close> lists the calls made to the sinks and to
  the log so far, oldest first.
\<close>

record PacketsManager =
  seeking :: bool
  seek_segment_set :: "StreamType \<Rightarrow> bool"
  seek_segment_video_time :: TimeTicks
  buffered_packets_timestamp :: "StreamType \<Rightarrow> TimeTicks"
  packets :: "BufferedStreamPacket list"
  streams :: "StreamType \<Rightarrow> StreamManager option"
  calls :: "call list"

definition kAppendPacketsThreshold :: TimeTicks where
  "kAppendPacketsThreshold = 4"

section \<open>Operations\<close>

text \<open>The constructor: not seeking, no segment set, horizons zero, no sink, empty queue.\<close>

definition PacketsManager_init :: PacketsManager where
  "PacketsManager_init =
     \<lparr>seeking = False, seek_segment_set = (\<lambda>_. False), seek_segment_video_time = 0,
      buffered_packets_timestamp = (\<lambda>_. 0), packets = [], streams = (\<lambda>_. None),
      calls = []\<rparr>"

text \<open>The loop \<^verbatim>\<open>while (!packets_.empty()) packets_.pop();\<close>\<close>

fun pop_all :: "BufferedStreamPacket list \<Rightarrow> BufferedStreamPacket list" where
  "pop_all [] = []"
| "pop_all (p # ps) = pop_all ps"

definition PrepareForSeek :: "TimeTicks \<Rightarrow> PacketsManager \<Rightarrow> PacketsManager" where
  "PrepareForSeek to_time st =
     st\<lparr>packets := pop_all (packets st),
        seeking := True,
        seek_segment_set := (seek_segment_set st)(Audio := False, Video := False),
        seek_segment_video_time := 0,
        buffered_packets_timestamp :=
          (buffered_packets_timestamp st)(Audio := 0, Video := 0)\<rparr>"

text \<open>
  Modelled from the spec: the comparator of \<^verbatim>\<open>packets_\<close> is declared in
  \<^verbatim>\<open>packets_manager.h\<close>, which is not among the sources. The spec orders the buffer by
  ascending decode timestamp, ties broken stably: the new entry goes behind every entry
  whose timestamp is not larger.
\<close>

fun emplace :: "BufferedStreamPacket \<Rightarrow> BufferedStreamPacket list \<Rightarrow> BufferedStreamPacket list" where
  "emplace e [] = [e]"
| "emplace e (p # ps) =
     (if GetDts (packet e) < GetDts (packet p) then e # p # ps else p # emplace e ps)"

definition OnEsPacket :: "Message \<Rightarrow> ElementaryStreamPacket \<Rightarrow> PacketsManager \<Rightarrow> PacketsManager" where
  "OnEsPacket message pkt st =
     (case message of
        kEndOfStream \<Rightarrow> st\<lparr>calls := calls st @ [LOG_DEBUG ReceivedEOS]\<rparr>
      | kOtherMessage \<Rightarrow> st\<lparr>calls := calls st @ [LOG_ERROR UnsupportedMessageType]\<rparr>
      | _ \<Rightarrow>
         (let ty = (if message = kAudioPkt then Audio else Video) in
          case streams st ty of
            None \<Rightarrow> st\<lparr>calls := calls st @ [LOG_ERROR (PacketForNonExistingStream ty)]\<rparr>
          | Some sink \<Rightarrow>
             if IsSeeking sink then st
             else st\<lparr>buffered_packets_timestamp :=
                        (buffered_packets_timestamp st)(ty := GetDts pkt),
                      packets := emplace \<lparr>type = ty, packet = pkt\<rparr> (packets st)\<rparr>))"

definition OnNeedData :: "StreamType \<Rightarrow> int \<Rightarrow> PacketsManager \<Rightarrow> PacketsManager" where
  "OnNeedData ty bytes_max st = st"

definition OnEnoughData :: "StreamType \<Rightarrow> PacketsManager \<Rightarrow> PacketsManager" where
  "OnEnoughData ty st = st"

text \<open>
  \<^verbatim>\<open>OnSeekData\<close>, lines 88 to 105: the stream whose seek segment is now known is
  marked. \<open>None\<close> is the branch that logs the error and returns.
\<close>

definition OnSeekData_mark :: "StreamType \<Rightarrow> TimeTicks \<Rightarrow> PacketsManager \<Rightarrow> PacketsManager option" where
  "OnSeekData_mark ty new_time st =
     (if streams st Audio \<noteq> None \<and> ty = Audio then
        Some (st\<lparr>seek_segment_set := (seek_segment_set st)(Audio := True)\<rparr>)
      else
        (case streams st Video of
           Some video_sink \<Rightarrow>
             if ty = Video then
               (let (video_segment_start, video_segment_duration) =
                      SetSegmentToTime video_sink new_time
                in Some (st\<lparr>seek_segment_set := (seek_segment_set st)(Video := True),
                            seek_segment_video_time := video_segment_start,
                            calls := calls st @
                              [SegmentToTime Video new_time,
                               LOG_DEBUG (SeekToVideoSegment video_segment_start
                                            (TimeTicks_plus video_segment_start
                                               video_segment_duration))]\<rparr>))
             else None
         | None \<Rightarrow> None))"

text \<open>\<^verbatim>\<open>OnSeekData\<close>, lines 110 to 124: the audio segment is looked up when it may be.\<close>

definition OnSeekData_audio :: "TimeTicks \<Rightarrow> PacketsManager \<Rightarrow> PacketsManager" where
  "OnSeekData_audio new_time st =
     (let video_segment_set = (streams st Video = None \<or> seek_segment_set st Video);
          audio_segment_set = seek_segment_set st Audio
      in case streams st Audio of
           Some audio_sink \<Rightarrow>
             if audio_segment_set \<and> video_segment_set then
               (let seek_audio_to_time =
                      (if streams st Video \<noteq> None then seek_segment_video_time st
                       else new_time);
                    (audio_segment_start, audio_segment_duration) =
                      SetSegmentToTime audio_sink seek_audio_to_time
                in st\<lparr>calls := calls st @
                         [SegmentToTime Audio seek_audio_to_time,
                          LOG_DEBUG (SeekToAudioSegment audio_segment_start
                                       (TimeTicks_plus audio_segment_start
                                          audio_segment_duration))]\<rparr>)
             else st
         | None \<Rightarrow> st)"

definition OnSeekData :: "StreamType \<Rightarrow> TimeTicks \<Rightarrow> PacketsManager \<Rightarrow> PacketsManager" where
  "OnSeekData ty new_time st =
     (case OnSeekData_mark ty new_time st of
        None \<Rightarrow> st\<lparr>calls := calls st @ [LOG_ERROR (SeekDataForNonExistingStream ty)]\<rparr>
      | Some st1 \<Rightarrow> OnSeekData_audio new_time st1)"

text \<open>The condition of lines 140 to 142 under which the packet at the top ends the seek.\<close>

definition ends_seek :: "PacketsManager \<Rightarrow> BufferedStreamPacket \<Rightarrow> bool" where
  "ends_seek st p =
     (((streams st Video \<noteq> None \<and> type p = Video) \<or>
       (streams st Video = None \<and> streams st Audio \<noteq> None \<and> type p = Audio)) \<and>
      IsKeyFrame (packet p))"

text \<open>The loop of \<^verbatim>\<open>CheckSeekEndConditions\<close>, lines 135 to 152.\<close>

function CheckSeekEndConditions_loop :: "TimeTicks \<Rightarrow> PacketsManager \<Rightarrow> PacketsManager" where
  "CheckSeekEndConditions_loop buffered_time st =
     (case packets st of
        [] \<Rightarrow> st
      | p # ps \<Rightarrow>
          let packet_playback_position = GetDts (packet p) in
          if buffered_time < packet_playback_position then st
          else if ends_seek st p then
            st\<lparr>seeking := False,
               calls := calls st @
                 [LOG_DEBUG (SeekFinishing (GetDts (packet p)) (type p) (length (packets st)))]\<rparr>
          else CheckSeekEndConditions_loop buffered_time (st\<lparr>packets := ps\<rparr>))"
  by pat_completeness auto
termination
  by (relation "measure (\<lambda>(buffered_time, st). length (packets st))") auto

declare CheckSeekEndConditions_loop.simps [simp del]

text \<open>\<^verbatim>\<open>assert(seeking_)\<close> fails fast: the failed assertion is the error value.\<close>

definition CheckSeekEndConditions :: "TimeTicks \<Rightarrow> PacketsManager \<Rightarrow> error + PacketsManager" where
  "CheckSeekEndConditions buffered_time st =
     (if \<not> seeking st then Inl AssertionFailed
      else Inr (CheckSeekEndConditions_loop buffered_time st))"

text \<open>The condition of the \<^verbatim>\<open>while\<close> of \<^verbatim>\<open>AppendPackets\<close>, lines 162 and 163.\<close>

definition append_condition :: "TimeTicks \<Rightarrow> TimeTicks \<Rightarrow> TimeTicks \<Rightarrow> bool" where
  "append_condition playback_time buffered_time packet_playback_position =
     (TimeTicks_minus packet_playback_position playback_time < kAppendPacketsThreshold \<and>
      packet_playback_position < buffered_time)"

text \<open>
  The loop of \<^verbatim>\<open>AppendPackets\<close>, lines 158 to 179. Every round starts with the test
  that the queue is not empty (line 158 before the first round, line 176 before every
  other one), reads the timestamp of the top (lines 161 and 178) and tests the condition
  of the \<^verbatim>\<open>while\<close>. The branch for a missing sink logs and pops nothing. The loop
  may run forever, so the result is an option: \<open>None\<close> is a loop that never returns.
\<close>

partial_function (option) AppendPackets_loop ::
  "TimeTicks \<Rightarrow> TimeTicks \<Rightarrow> PacketsManager \<Rightarrow> PacketsManager option" where
  "AppendPackets_loop playback_time buffered_time st =
     (case packets st of
        [] \<Rightarrow> Some st
      | p # ps \<Rightarrow>
          let packet_playback_position = GetDts (packet p) in
          if append_condition playback_time buffered_time packet_playback_position then
            (let stream_id = type p in
             case streams st stream_id of
               Some sink \<Rightarrow>
                 AppendPackets_loop playback_time buffered_time
                   (st\<lparr>packets := ps,
                      calls := calls st @ [AppendPacket stream_id (packet p)]\<rparr>)
             | None \<Rightarrow>
                 AppendPackets_loop playback_time buffered_time
                   (st\<lparr>calls := calls st @ [LOG_ERROR (InvalidStreamIndex stream_id)]\<rparr>))
          else Some st)"

text \<open>\<^verbatim>\<open>assert(!seeking_)\<close>, then the loop.\<close>

definition AppendPackets ::
  "TimeTicks \<Rightarrow> TimeTicks \<Rightarrow> PacketsManager \<Rightarrow> (error + PacketsManager) option" where
  "AppendPackets playback_time buffered_time st =
     (if seeking st then Some (Inl AssertionFailed)
      else map_option Inr (AppendPackets_loop playback_time buffered_time st))"

text \<open>
  Lines 187 to 195 of \<^verbatim>\<open>UpdateBuffer\<close>. The largest value of \<^verbatim>\<open>TimeTicks\<close>,
  \<^verbatim>\<open>std::numeric_limits<TimeTicks>::max()\<close>, is the parameter \<open>TimeTicks_max\<close>.
\<close>

definition buffered_time_of :: "TimeTicks \<Rightarrow> PacketsManager \<Rightarrow> TimeTicks" where
  "buffered_time_of TimeTicks_max st =
     (let buffered_time = TimeTicks_max;
          buffered_time =
            (if streams st Video \<noteq> None \<and>
                buffered_time > buffered_packets_timestamp st Video
             then buffered_packets_timestamp st Video else buffered_time);
          buffered_time =
            (if streams st Audio \<noteq> None \<and>
                buffered_time > buffered_packets_timestamp st Audio
             then buffered_packets_timestamp st Audio else buffered_time)
      in buffered_time)"

text \<open>
  \<^verbatim>\<open>UpdateBuffer\<close>: the result is \<open>None\<close> when the pacing loop never returns,
  an error when an assertion fails, and otherwise the returned flag with the new state.
\<close>

definition UpdateBuffer ::
  "TimeTicks \<Rightarrow> TimeTicks \<Rightarrow> PacketsManager \<Rightarrow> (error + bool \<times> PacketsManager) option" where
  "UpdateBuffer TimeTicks_max playback_time st =
     (let buffered_time = buffered_time_of TimeTicks_max st in
      case (if seeking st then CheckSeekEndConditions buffered_time st else Inr st) of
        Inl e \<Rightarrow> Some (Inl e)
      | Inr st1 \<Rightarrow>
          (case (if \<not> seeking st1 then AppendPackets playback_time buffered_time st1
                 else Some (Inr st1)) of
             None \<Rightarrow> None
           | Some (Inl e) \<Rightarrow> Some (Inl e)
           | Some (Inr st2) \<Rightarrow> Some (Inr (packets st2 \<noteq> [], st2))))"

definition SetStream :: "StreamType \<Rightarrow> StreamManager option \<Rightarrow> PacketsManager \<Rightarrow> PacketsManager" where
  "SetStream ty manager st = st\<lparr>streams := (streams st)(ty := manager)\<rparr>"

section \<open>Sequences of operations\<close>

text \<open>The public operations of the manager, as calls with their arguments.\<close>

datatype operation =
    CallPrepareForSeek TimeTicks
  | CallOnEsPacket Message ElementaryStreamPacket
  | CallOnNeedData StreamType int
  | CallOnEnoughData StreamType
  | CallOnSeekData StreamType TimeTicks
  | CallUpdateBuffer TimeTicks
  | CallSetStream StreamType "StreamManager option"

fun step :: "TimeTicks \<Rightarrow> operation \<Rightarrow> PacketsManager \<Rightarrow> (error + PacketsManager) option" where
  "step tmax (CallPrepareForSeek to_time) st = Some (Inr (PrepareForSeek to_time st))"
| "step tmax (CallOnEsPacket message pkt) st = Some (Inr (OnEsPacket message pkt st))"
| "step tmax (CallOnNeedData ty bytes_max) st = Some (Inr (OnNeedData ty bytes_max st))"
| "step tmax (CallOnEnoughData ty) st = Some (Inr (OnEnoughData ty st))"
| "step tmax (CallOnSeekData ty new_time) st = Some (Inr (OnSeekData ty new_time st))"
| "step tmax (CallUpdateBuffer playback_time) st =
     (case UpdateBuffer tmax playback_time st of
        None \<Rightarrow> None
      | Some (Inl e) \<Rightarrow> Some (Inl e)
      | Some (Inr (has_packets, st1)) \<Rightarrow> Some (Inr st1))"
| "step tmax (CallSetStream ty manager) st = Some (Inr (SetStream ty manager st))"

fun run :: "TimeTicks \<Rightarrow> operation list \<Rightarrow> PacketsManager \<Rightarrow> (error + PacketsManager) option" where
  "run tmax [] st = Some (Inr st)"
| "run tmax (c # cs) st =
     (case step tmax c st of
        None \<Rightarrow> None
      | Some (Inl e) \<Rightarrow> Some (Inl e)
      | Some (Inr st') \<Rightarrow> run tmax cs st')"

section \<open>Predicates and examples used by the properties\<close>

text \<open>The entry may be appended: the condition of the pacing loop at its timestamp.\<close>

definition may_append :: "TimeTicks \<Rightarrow> TimeTicks \<Rightarrow> BufferedStreamPacket \<Rightarrow> bool" where
  "may_append playback_time buffered_time p =
     append_condition playback_time buffered_time (GetDts (packet p))"

text \<open>The top of the queue may be appended and the slot of its stream is empty.\<close>

definition top_without_sink :: "TimeTicks \<Rightarrow> TimeTicks \<Rightarrow> PacketsManager \<Rightarrow> bool" where
  "top_without_sink playback_time buffered_time st =
     (case packets st of
        [] \<Rightarrow> False
      | p # ps \<Rightarrow> may_append playback_time buffered_time p \<and> streams st (type p) = None)"

text \<open>The entry is dropped by the seek end check: it is within the buffered time and does
  not end the seek.\<close>

definition dropped_by_seek :: "TimeTicks \<Rightarrow> PacketsManager \<Rightarrow> BufferedStreamPacket \<Rightarrow> bool" where
  "dropped_by_seek buffered_time st p =
     (GetDts (packet p) \<le> buffered_time \<and> \<not> ends_seek st p)"

text \<open>The queue yields its entries by ascending decode timestamp.\<close>

definition dts_sorted :: "BufferedStreamPacket list \<Rightarrow> bool" where
  "dts_sorted ps = sorted (map (\<lambda>p. GetDts (packet p)) ps)"

text \<open>The packets handed to the sinks so far, oldest first.\<close>

fun appended :: "call list \<Rightarrow> (StreamType \<times> ElementaryStreamPacket) list" where
  "appended [] = []"
| "appended (AppendPacket ty pkt # cs) = (ty, pkt) # appended cs"
| "appended (c # cs) = appended cs"

text \<open>The calls an operation added to the list of calls.\<close>

definition new_calls :: "PacketsManager \<Rightarrow> PacketsManager \<Rightarrow> call list" where
  "new_calls st st' = drop (length (calls st)) (calls st')"

text \<open>The largest finite double, the value of \<^verbatim>\<open>std::numeric_limits<double>::max()\<close>.\<close>

definition DBL_MAX :: TimeTicks where
  "DBL_MAX = 2 ^ 1024 - 2 ^ 971"

definition es_packet :: "TimeTicks \<Rightarrow> bool \<Rightarrow> ElementaryStreamPacket" where
  "es_packet dts key = \<lparr>GetDts = dts, IsKeyFrame = key, es_data = []\<rparr>"

definition entry :: "StreamType \<Rightarrow> TimeTicks \<Rightarrow> bool \<Rightarrow> BufferedStreamPacket" where
  "entry ty dts key = \<lparr>type = ty, packet = es_packet dts key\<rparr>"

text \<open>A sink that is not seeking and whose segments are two seconds long, the one that
  covers any requested time starting at 4.\<close>

definition example_sink :: StreamManager where
  "example_sink = \<lparr>IsSeeking = False, SetSegmentToTime = (\<lambda>t. (4, 2))\<rparr>"

text \<open>
  The seek scenario of the specification: both sinks registered, a seek in progress, Video
  entries at 1.0 (keyframe), 1.5 and 2.0 (keyframe), Audio entries at 1.0, 1.5 and 2.0.
  The order of two entries with the same timestamp is the comparator's business; each flag
  says whether the Video entry of that timestamp comes first.
\<close>

definition seek_scenario :: "bool \<Rightarrow> bool \<Rightarrow> bool \<Rightarrow> PacketsManager" where
  "seek_scenario v1 v2 v3 =
     PacketsManager_init
       \<lparr>seeking := True,
        buffered_packets_timestamp := (\<lambda>_. 2),
        packets :=
          (if v1 then [entry Video 1 True, entry Audio 1 True]
           else [entry Audio 1 True, entry Video 1 True]) @
          (if v2 then [entry Video 1.5 False, entry Audio 1.5 True]
           else [entry Audio 1.5 True, entry Video 1.5 False]) @
          (if v3 then [entry Video 2 True, entry Audio 2 True]
           else [entry Audio 2 True, entry Video 2 True]),
        streams := (\<lambda>_. Some example_sink)\<rparr>"

text \<open>The calls that lead to the seek scenario from a new manager.\<close>

definition seek_scenario_calls :: "operation list" where
  "seek_scenario_calls =
     [CallSetStream Video (Some example_sink), CallSetStream Audio (Some example_sink),
      CallPrepareForSeek 1,
      CallOnEsPacket kVideoPkt (es_packet 1 True),
      CallOnEsPacket kVideoPkt (es_packet 1.5 False),
      CallOnEsPacket kVideoPkt (es_packet 2 True),
      CallOnEsPacket kAudioPkt (es_packet 1 True),
      CallOnEsPacket kAudioPkt (es_packet 1.5 True),
      CallOnEsPacket kAudioPkt (es_packet 2 True)]"

text \<open>A seek in progress with only an Audio sink and one Audio packet that does not carry
  the keyframe flag.\<close>

definition audio_only_state :: PacketsManager where
  "audio_only_state =
     PacketsManager_init
       \<lparr>seeking := True,
        buffered_packets_timestamp := (\<lambda>_. 0)(Audio := 2),
        packets := [entry Audio 1 False, entry Audio 2 True],
        streams := (\<lambda>_. None)(Audio \<mapsto> example_sink)\<rparr>"

text \<open>The pacing scenario of the specification: entries at 1, 2, 3 and 5, both sinks
  registered, no seek in progress.\<close>

definition pace_scenario :: PacketsManager where
  "pace_scenario =
     PacketsManager_init
       \<lparr>buffered_packets_timestamp := (\<lambda>_. 10),
        packets := [entry Video 1 True, entry Audio 2 True, entry Video 3 False,
                    entry Audio 5 True],
        streams := (\<lambda>_. Some example_sink)\<rparr>"

text \<open>An Audio packet was buffered while the Audio sink was registered; the sink has been
  taken away since.\<close>

definition missing_sink_calls :: "operation list" where
  "missing_sink_calls =
     [CallSetStream Audio (Some example_sink),
      CallOnEsPacket kAudioPkt (es_packet 1 True),
      CallSetStream Audio None]"

definition missing_sink_state :: PacketsManager where
  "missing_sink_state =
     PacketsManager_init
       \<lparr>buffered_packets_timestamp := (\<lambda>_. 0)(Audio := 1),
        packets := [entry Audio 1 True]\<rparr>"

text \<open>\<^verbatim>\<open>OnEsPacket\<close> stores a packet with this message for this stream: the message
  is the one of the stream, the stream has a sink and the sink is not seeking.\<close>

definition packet_accepted :: "Message \<Rightarrow> StreamType \<Rightarrow> PacketsManager \<Rightarrow> bool" where
  "packet_accepted message ty st =
     ((message = kAudioPkt \<and> ty = Audio \<or> message = kVideoPkt \<and> ty = Video) \<and>
      (case streams st ty of None \<Rightarrow> False | Some sink \<Rightarrow> \<not> IsSeeking sink))"

text \<open>The streams that have a sink.\<close>

definition registered :: "PacketsManager \<Rightarrow> StreamType set" where
  "registered st = {ty. streams st ty \<noteq> None}"

text \<open>Two states agree on everything but the queue and the calls.\<close>

definition same_bookkeeping :: "PacketsManager \<Rightarrow> PacketsManager \<Rightarrow> bool" where
  "same_bookkeeping st st' =
     (seeking st' = seeking st \<and> streams st' = streams st \<and>
      buffered_packets_timestamp st' = buffered_packets_timestamp st \<and>
      seek_segment_set st' = seek_segment_set st \<and>
      seek_segment_video_time st' = seek_segment_video_time st)"

text \<open>Both sinks registered, the last Audio packet at 3 and the last Video packet at 5.\<close>

definition two_horizons_state :: PacketsManager where
  "two_horizons_state =
     PacketsManager_init
       \<lparr>buffered_packets_timestamp := (\<lambda>_. 0)(Audio := 3, Video := 5),
        streams := (\<lambda>_. Some example_sink)\<rparr>"

text \<open>A new manager with an Audio sink.\<close>

definition audio_sink_state :: PacketsManager where
  "audio_sink_state = SetStream Audio (Some example_sink) PacketsManager_init"



section \<open>Auxiliary facts\<close>

lemma not_Video [simp]: "(x \<noteq> Video) = (x = Audio)"
  by (cases x) simp_all

lemma not_Audio [simp]: "(x \<noteq> Audio) = (x = Video)"
  by (cases x) simp_all

text \<open>
  Rounding to the nearest double, at the pacing threshold: the rounded number is below 4
  exactly when the exact one is below the midpoint of 4 and the double in front of it.
\<close>

lemma round_half_even_le: "r \<le> of_int n \<Longrightarrow> round_half_even r \<le> n"
proof -
  assume le: "r \<le> of_int n"
  show ?thesis
  proof (cases "r = of_int n")
    case True
    then show ?thesis by (simp add: round_half_even_def)
  next
    case False
    with le have "r < of_int n" by simp
    then have "\<lfloor>r\<rfloor> < n" by (simp add: floor_less_iff)
    then show ?thesis by (simp add: round_half_even_def Let_def)
  qed
qed

lemma round_half_even_ge: "of_int n \<le> r \<Longrightarrow> n \<le> round_half_even r"
proof -
  assume "of_int n \<le> r"
  then have "n \<le> \<lfloor>r\<rfloor>" by (simp add: le_floor_iff)
  then show ?thesis by (simp add: round_half_even_def Let_def)
qed

lemma double_ulp_pos: "0 < double_ulp x"
  by (simp add: double_ulp_def)

lemma floor_log2_bounds:
  assumes "0 < x"
  shows "2 powr of_int \<lfloor>log 2 x\<rfloor> \<le> x" and "x < 2 powr (of_int \<lfloor>log 2 x\<rfloor> + 1)"
proof -
  have "of_int \<lfloor>log 2 x\<rfloor> \<le> log 2 x" by simp
  then have "2 powr of_int \<lfloor>log 2 x\<rfloor> \<le> 2 powr log 2 x" by simp
  then show "2 powr of_int \<lfloor>log 2 x\<rfloor> \<le> x" using assms by simp
  have "log 2 x < of_int \<lfloor>log 2 x\<rfloor> + 1" by linarith
  then have "2 powr log 2 x < 2 powr (of_int \<lfloor>log 2 x\<rfloor> + 1)" by simp
  then show "x < 2 powr (of_int \<lfloor>log 2 x\<rfloor> + 1)" using assms by simp
qed


lemma round_double_nonpos: "x \<le> 0 \<Longrightarrow> round_double x \<le> 0"
proof -
  assume x: "x \<le> 0"
  have "x / double_ulp x \<le> of_int 0"
    using x double_ulp_pos [of x] by (simp add: divide_nonpos_pos)
  then have "round_half_even (x / double_ulp x) \<le> 0"
    by (rule round_half_even_le)
  then have "of_int (round_half_even (x / double_ulp x)) * double_ulp x \<le> 0"
    using double_ulp_pos [of x] by (simp add: mult_le_0_iff)
  then show ?thesis by (simp add: round_double_def)
qed

lemma round_double_below_2:
  assumes "0 < x" and "x < 2"
  shows "round_double x \<le> 2"
proof -
  define e where "e = max (\<lfloor>log 2 \<bar>x\<bar>\<rfloor> - 52) (- 1074)"
  have u: "double_ulp x = 2 powr of_int e"
    by (simp add: double_ulp_def e_def)
  have ax: "\<bar>x\<bar> = x"
    using assms(1) by simp
  have "log 2 x < 1"
    using assms by (simp add: log_less_iff)
  then have "\<lfloor>log 2 x\<rfloor> \<le> 0"
    by (simp add: floor_le_iff)
  then have e: "e \<le> 1"
    unfolding e_def ax by arith
  have "2 / double_ulp x = 2 powr of_int (1 - e)"
    by (simp add: u powr_diff)
  also have "\<dots> = 2 ^ nat (1 - e)"
    using e powr_real_of_int [of 2 "1 - e"] by simp
  also have "\<dots> = of_int (2 ^ nat (1 - e))"
    by simp
  finally have i: "2 / double_ulp x = of_int (2 ^ nat (1 - e))" .
  have "x / double_ulp x \<le> 2 / double_ulp x"
    using assms(2) double_ulp_pos [of x] by (simp add: divide_le_cancel)
  then have "round_half_even (x / double_ulp x) \<le> 2 ^ nat (1 - e)"
    unfolding i by (rule round_half_even_le)
  then have "of_int (round_half_even (x / double_ulp x)) \<le> (of_int (2 ^ nat (1 - e)) :: real)"
    by (simp only: of_int_le_iff)
  then have "of_int (round_half_even (x / double_ulp x)) * double_ulp x
      \<le> of_int (2 ^ nat (1 - e)) * double_ulp x"
    using double_ulp_pos [of x] by (simp only: mult_le_cancel_right) simp
  also have "\<dots> = 2"
    using i double_ulp_pos [of x] by (simp add: field_simps)
  finally show ?thesis
    using assms(1) by (simp add: round_double_def)
qed

lemma round_double_from_4:
  assumes "4 \<le> x"
  shows "4 \<le> round_double x"
proof -
  define k where "k = \<lfloor>log 2 x\<rfloor>"
  have x: "0 < x" using assms by simp
  have "log 2 4 \<le> log 2 x"
    using assms by simp
  moreover have "log 2 4 = 2"
    using log_pow_cancel [of 2 2] by simp
  ultimately have k: "2 \<le> k"
    by (simp add: k_def le_floor_iff)
  have ax: "\<bar>x\<bar> = x"
    using x by simp
  have "max (k - 52) (- 1074) = k - 52"
    using k by arith
  then have u: "double_ulp x = 2 powr of_int (k - 52)"
    unfolding double_ulp_def ax k_def by (simp only:)
  have lo: "2 powr of_int k \<le> x"
    unfolding k_def by (rule floor_log2_bounds(1) [OF x])
  have "2 powr of_int k / double_ulp x = 2 powr 52"
    by (simp add: u powr_diff [symmetric])
  also have "\<dots> = of_int (2 ^ 52)"
    by simp
  finally have i: "2 powr of_int k / double_ulp x = of_int (2 ^ 52)" .
  have "2 powr of_int k / double_ulp x \<le> x / double_ulp x"
    using lo double_ulp_pos [of x] by (simp add: divide_le_cancel)
  then have "2 ^ 52 \<le> round_half_even (x / double_ulp x)"
    unfolding i by (rule round_half_even_ge)
  then have "(of_int (2 ^ 52) :: real) \<le> of_int (round_half_even (x / double_ulp x))"
    by (simp only: of_int_le_iff)
  then have "of_int (2 ^ 52) * double_ulp x
      \<le> of_int (round_half_even (x / double_ulp x)) * double_ulp x"
    using double_ulp_pos [of x] by (simp only: mult_le_cancel_right) simp
  moreover have "of_int (2 ^ 52) * double_ulp x = 2 powr of_int k"
    using i double_ulp_pos [of x] by (simp add: field_simps)
  moreover have "(4::real) \<le> 2 powr of_int k"
  proof -
    have "(2::real) powr 2 \<le> 2 powr of_int k"
    proof (rule powr_mono)
      show "2 \<le> real_of_int k" using k by simp
      show "(1::real) \<le> 2" by simp
    qed
    moreover have "(2::real) powr 2 = 4" by simp
    ultimately show ?thesis by (simp only:)
  qed
  ultimately show ?thesis
    using x by (simp add: round_double_def)
qed

lemma round_double_binade_2_4:
  assumes "2 \<le> x" and "x < 4"
  shows "round_double x = of_int (round_half_even (x * 2 ^ 51)) / 2 ^ 51"
proof -
  have x: "0 < x" using assms by simp
  have "log 2 2 \<le> log 2 x" using assms by simp
  then have "1 \<le> log 2 x" by simp
  moreover have "log 2 x < log 2 4" using assms x by simp
  moreover have "log 2 4 = 2"
    using log_pow_cancel [of 2 2] by simp
  ultimately have fl: "\<lfloor>log 2 x\<rfloor> = 1"
    by (simp add: floor_eq_iff)
  have ax: "\<bar>x\<bar> = x"
    using x by simp
  have "double_ulp x = 2 powr (- 51)"
    unfolding double_ulp_def ax fl by simp
  also have "\<dots> = 1 / 2 ^ 51"
    by (simp add: powr_minus_divide)
  finally have u: "double_ulp x = 1 / 2 ^ 51" .
  have "round_double x = of_int (round_half_even (x / double_ulp x)) * double_ulp x"
    using x by (simp add: round_double_def)
  also have "\<dots> = of_int (round_half_even (x * 2 ^ 51)) / 2 ^ 51"
    unfolding u by simp
  finally show ?thesis .
qed

lemma round_half_even_below_2_53:
  assumes "y < 2 ^ 53"
  shows "round_half_even y < 2 ^ 53 \<longleftrightarrow> y < 2 ^ 53 - 1 / 2"
proof
  assume r: "round_half_even y < 2 ^ 53"
  show "y < 2 ^ 53 - 1 / 2"
  proof (rule ccontr)
    assume "\<not> y < 2 ^ 53 - 1 / 2"
    then have ge: "2 ^ 53 - 1 / 2 \<le> y" by simp
    have f: "\<lfloor>y\<rfloor> = 2 ^ 53 - 1"
      using ge assms by (simp add: floor_eq_iff)
    have "odd (2 ^ 53 - 1 :: int)" by simp
    then have "round_half_even y = 2 ^ 53"
      using ge by (simp add: round_half_even_def f Let_def)
    with r show False by simp
  qed
next
  assume lt: "y < 2 ^ 53 - 1 / 2"
  show "round_half_even y < 2 ^ 53"
  proof (cases "y < 2 ^ 53 - 1")
    case True
    then have "\<lfloor>y\<rfloor> < 2 ^ 53 - 1"
      by (simp add: floor_less_iff)
    then show ?thesis
      by (simp add: round_half_even_def Let_def)
  next
    case False
    then have f: "\<lfloor>y\<rfloor> = 2 ^ 53 - 1"
      using lt by (simp add: floor_eq_iff)
    show ?thesis
      using lt by (simp add: round_half_even_def f Let_def)
  qed
qed

lemma round_double_less_4: "round_double x < 4 \<longleftrightarrow> x < 4 - 1 / 2 ^ 52"
proof -
  consider "x \<le> 0" | "0 < x" "x < 2" | "2 \<le> x" "x < 4" | "4 \<le> x"
    by linarith
  then show ?thesis
  proof cases
    case 1
    with round_double_nonpos [of x] show ?thesis by simp
  next
    case 2
    with round_double_below_2 [of x] show ?thesis by simp
  next
    case 3
    have y: "x * 2 ^ 51 < 2 ^ 53"
      using 3(2) by simp
    have "round_double x < 4 \<longleftrightarrow> round_half_even (x * 2 ^ 51) < 2 ^ 53"
    proof -
      have "round_double x < 4 \<longleftrightarrow>
          (of_int (round_half_even (x * 2 ^ 51)) :: real) < of_int (2 ^ 53)"
        by (simp add: round_double_binade_2_4 [OF 3] field_simps)
      then show ?thesis by (simp only: of_int_less_iff)
    qed
    also have "\<dots> \<longleftrightarrow> x * 2 ^ 51 < 2 ^ 53 - 1 / 2"
      by (rule round_half_even_below_2_53 [OF y])
    also have "\<dots> \<longleftrightarrow> x < 4 - 1 / 2 ^ 52"
      by (simp add: field_simps)
    finally show ?thesis .
  next
    case 4
    with round_double_from_4 [of x] show ?thesis by simp
  qed
qed

lemma append_condition_iff:
  "append_condition playback_time buffered_time packet_playback_position \<longleftrightarrow>
     packet_playback_position - playback_time < 4 - 1 / 2 ^ 52 \<and>
     packet_playback_position < buffered_time"
  by (simp only: append_condition_def TimeTicks_minus_def kAppendPacketsThreshold_def
      round_double_less_4)

lemma round_double_eval:
  assumes "2 powr of_int k \<le> x" and "x < 2 powr (of_int k + 1)" and "- 1022 \<le> k"
  shows "round_double x =
     of_int (round_half_even (x / 2 powr of_int (k - 52))) * 2 powr of_int (k - 52)"
proof -
  have x: "0 < x"
    using assms(1) powr_gt_zero [of 2 "of_int k"] by linarith
  have lo: "of_int k \<le> log 2 x"
    using assms(1) x by (simp add: le_log_iff)
  have hi: "log 2 x < of_int k + 1"
    using assms(2) x by (simp add: log_less_iff)
  from lo hi have fl: "\<lfloor>log 2 x\<rfloor> = k"
    by (simp add: floor_eq_iff)
  have ax: "\<bar>x\<bar> = x" using x by simp
  have m: "max (k - 52) (- 1074) = k - 52"
    using assms(3) by arith
  have "double_ulp x = 2 powr of_int (k - 52)"
    unfolding double_ulp_def ax fl m ..
  then show ?thesis
    using x by (simp add: round_double_def)
qed

lemma nearest_doubles:
  "round_double (43 / 10) = 4841369599423283 / 2 ^ 50 \<and>
   round_double (3 / 10) = 5404319552844595 / 2 ^ 54"
proof
  have p: "(2::real) powr of_int (2 - 52) = 1 / 2 ^ 50"
    by (simp add: powr_minus_divide)
  have "round_double (43 / 10) =
      of_int (round_half_even ((43 / 10) / 2 powr of_int (2 - 52))) * 2 powr of_int (2 - 52)"
    by (rule round_double_eval) simp_all
  also have "\<dots> = 4841369599423283 / 2 ^ 50"
    unfolding p by (simp add: round_half_even_def Let_def)
  finally show "round_double (43 / 10) = 4841369599423283 / 2 ^ 50" .
  have q: "(2::real) powr of_int (- 2 - 52) = 1 / 2 ^ 54"
    by (simp add: powr_minus_divide)
  have "round_double (3 / 10) =
      of_int (round_half_even ((3 / 10) / 2 powr of_int (- 2 - 52))) * 2 powr of_int (- 2 - 52)"
    by (rule round_double_eval) (simp_all add: powr_minus_divide)
  also have "\<dots> = 5404319552844595 / 2 ^ 54"
    unfolding q by (simp add: round_half_even_def Let_def)
  finally show "round_double (3 / 10) = 5404319552844595 / 2 ^ 54" .
qed

text \<open>
  For the doubles nearest to 4.3 and to 0.3 the exact difference is below 4 and the
  difference of doubles is 4, so a packet at the first is not appended at the playback
  time of the second.
\<close>

lemma double_difference_rounds_to_4:
  "(4841369599423283 / 2 ^ 50 - 5404319552844595 / 2 ^ 54 :: real) < 4 \<and>
   \<not> TimeTicks_minus (4841369599423283 / 2 ^ 50) (5404319552844595 / 2 ^ 54) < 4 \<and>
   \<not> append_condition (5404319552844595 / 2 ^ 54) 10 (4841369599423283 / 2 ^ 50)"
  by (simp add: append_condition_iff TimeTicks_minus_def round_double_less_4)

lemma pop_all_empty [simp]: "pop_all ps = []"
  by (induction ps) simp_all

text \<open>The example states are reached from a new manager by the calls listed for them.\<close>

lemma seek_scenario_reached:
  "run tmax seek_scenario_calls PacketsManager_init = Some (Inr (seek_scenario True True True))"
  by (simp add: seek_scenario_calls_def seek_scenario_def PacketsManager_init_def SetStream_def
    PrepareForSeek_def OnEsPacket_def example_sink_def entry_def es_packet_def fun_eq_iff)

lemma missing_sink_reached:
  "run tmax missing_sink_calls PacketsManager_init = Some (Inr missing_sink_state)"
  by (simp add: missing_sink_calls_def missing_sink_state_def PacketsManager_init_def SetStream_def
    PrepareForSeek_def OnEsPacket_def example_sink_def entry_def es_packet_def fun_eq_iff)

lemma one_less_DBL_MAX: "(1::real) < DBL_MAX"
  by (simp add: DBL_MAX_def)

lemma appended_append: "appended (xs @ ys) = appended xs @ appended ys"
  by (induction xs rule: appended.induct) simp_all

lemma ends_seek_packets [simp]: "ends_seek (st\<lparr>packets := ps\<rparr>) = ends_seek st"
  by (simp add: ends_seek_def fun_eq_iff)

lemma dropped_by_seek_packets [simp]:
  "dropped_by_seek bt (st\<lparr>packets := ps\<rparr>) = dropped_by_seek bt st"
  by (simp add: dropped_by_seek_def fun_eq_iff)

lemma CheckSeekEndConditions_loop_eq:
  "CheckSeekEndConditions_loop bt st =
     (let rest = dropWhile (dropped_by_seek bt st) (packets st) in
      case rest of
        [] \<Rightarrow> st\<lparr>packets := []\<rparr>
      | p # ps \<Rightarrow>
          if bt < GetDts (packet p) then st\<lparr>packets := rest\<rparr>
          else st\<lparr>packets := rest, seeking := False,
                  calls := calls st @
                    [LOG_DEBUG (SeekFinishing (GetDts (packet p)) (type p) (length rest))]\<rparr>)"
proof (induction "packets st" arbitrary: st)
  case Nil
  then show ?case
    by (subst CheckSeekEndConditions_loop.simps) (simp add: Nil [symmetric])
next
  case (Cons p ps)
  show ?case
  proof (cases "bt < GetDts (packet p)")
    case True
    then show ?thesis
      by (subst CheckSeekEndConditions_loop.simps)
        (simp add: Cons(2) [symmetric] dropped_by_seek_def)
  next
    case False
    note within = this
    show ?thesis
    proof (cases "ends_seek st p")
      case True
      with within show ?thesis
        by (subst CheckSeekEndConditions_loop.simps)
          (simp add: Cons(2) [symmetric] dropped_by_seek_def)
    next
      case False
      have d: "dropped_by_seek bt st p"
        using within False by (simp add: dropped_by_seek_def)
      have unfold: "CheckSeekEndConditions_loop bt st =
            CheckSeekEndConditions_loop bt (st\<lparr>packets := ps\<rparr>)"
        using within False
        by (subst CheckSeekEndConditions_loop.simps) (simp add: Cons(2) [symmetric])
      have IH: "CheckSeekEndConditions_loop bt (st\<lparr>packets := ps\<rparr>) =
        (let rest = dropWhile (dropped_by_seek bt (st\<lparr>packets := ps\<rparr>))
                      (packets (st\<lparr>packets := ps\<rparr>)) in
         case rest of
           [] \<Rightarrow> st\<lparr>packets := ps\<rparr>\<lparr>packets := []\<rparr>
         | p # qs \<Rightarrow>
             if bt < GetDts (packet p) then st\<lparr>packets := ps\<rparr>\<lparr>packets := rest\<rparr>
             else st\<lparr>packets := ps\<rparr>\<lparr>packets := rest, seeking := False,
                     calls := calls (st\<lparr>packets := ps\<rparr>) @
                       [LOG_DEBUG (SeekFinishing (GetDts (packet p)) (type p) (length rest))]\<rparr>)"
        by (rule Cons(1)) simp
      show ?thesis
      proof (cases "dropWhile (dropped_by_seek bt st) ps")
        case Nil
        show ?thesis
          using d by (simp add: unfold IH Cons(2) [symmetric] Let_def Nil)
      next
        case (Cons q qs)
        show ?thesis
          using d by (simp add: unfold IH \<open>p # ps = packets st\<close> [symmetric] Let_def Cons)
      qed
    qed
  qed
qed

lemma CheckSeekEndConditions_loop_packets:
  "packets (CheckSeekEndConditions_loop bt st) = dropWhile (dropped_by_seek bt st) (packets st)"
proof (cases "dropWhile (dropped_by_seek bt st) (packets st)")
  case Nil
  show ?thesis by (simp add: CheckSeekEndConditions_loop_eq Let_def Nil)
next
  case (Cons p ps)
  show ?thesis by (simp add: CheckSeekEndConditions_loop_eq Let_def Cons)
qed

lemma CheckSeekEndConditions_loop_seeking:
  "seeking (CheckSeekEndConditions_loop bt st) =
     (case dropWhile (dropped_by_seek bt st) (packets st) of
        [] \<Rightarrow> seeking st
      | p # ps \<Rightarrow> if bt < GetDts (packet p) then seeking st else False)"
proof (cases "dropWhile (dropped_by_seek bt st) (packets st)")
  case Nil
  show ?thesis by (simp add: CheckSeekEndConditions_loop_eq Let_def Nil)
next
  case (Cons p ps)
  show ?thesis by (simp add: CheckSeekEndConditions_loop_eq Let_def Cons)
qed

lemma CheckSeekEndConditions_loop_frame:
  "streams (CheckSeekEndConditions_loop bt st) = streams st \<and>
   buffered_packets_timestamp (CheckSeekEndConditions_loop bt st) =
     buffered_packets_timestamp st \<and>
   seek_segment_set (CheckSeekEndConditions_loop bt st) = seek_segment_set st \<and>
   seek_segment_video_time (CheckSeekEndConditions_loop bt st) = seek_segment_video_time st \<and>
   appended (calls (CheckSeekEndConditions_loop bt st)) = appended (calls st)"
proof (cases "dropWhile (dropped_by_seek bt st) (packets st)")
  case Nil
  show ?thesis by (simp add: CheckSeekEndConditions_loop_eq Let_def Nil)
next
  case (Cons p ps)
  show ?thesis by (simp add: CheckSeekEndConditions_loop_eq Let_def Cons appended_append)
qed

lemma sorted_beyond:
  "dts_sorted (p # ps) \<Longrightarrow> bt < GetDts (packet p) \<Longrightarrow> q \<in> set (p # ps) \<Longrightarrow>
   bt < GetDts (packet q)"
  by (auto simp: dts_sorted_def)

lemma dts_sorted_dropWhile: "dts_sorted ps \<Longrightarrow> dts_sorted (dropWhile P ps)"
  unfolding dts_sorted_def
  by (induction ps) auto

lemma AppendPackets_loop_frame:
  assumes "AppendPackets_loop pt bt st = Some st'"
  shows "same_bookkeeping st st'"
proof (rule AppendPackets_loop.raw_induct
    [where P = "\<lambda>pt bt st st'. same_bookkeeping st st'", OF _ assms])
  fix f :: "TimeTicks \<Rightarrow> TimeTicks \<Rightarrow> PacketsManager \<Rightarrow> PacketsManager option"
    and pt bt st st'
  assume IH: "\<And>pt bt st st'. f pt bt st = Some st' \<Longrightarrow> same_bookkeeping st st'"
    and body: "(case packets st of
        [] \<Rightarrow> Some st
      | p # ps \<Rightarrow>
          let packet_playback_position = GetDts (packet p) in
          if append_condition pt bt packet_playback_position then
            (let stream_id = type p in
             case streams st stream_id of
               Some sink \<Rightarrow>
                 f pt bt
                   (st\<lparr>packets := ps,
                      calls := calls st @ [AppendPacket stream_id (packet p)]\<rparr>)
             | None \<Rightarrow>
                 f pt bt
                   (st\<lparr>calls := calls st @ [LOG_ERROR (InvalidStreamIndex stream_id)]\<rparr>))
          else Some st) = Some st'"
  from body show "same_bookkeeping st st'"
    by (auto simp: same_bookkeeping_def Let_def dest!: IH split: list.splits if_splits option.splits)
qed

lemma UpdateBuffer_horizon:
  assumes "UpdateBuffer tmax pt st = Some (Inr (b, st'))"
  shows "buffered_packets_timestamp st' = buffered_packets_timestamp st"
  using assms CheckSeekEndConditions_loop_frame [of "buffered_time_of tmax st" st]
  by (auto simp: UpdateBuffer_def Let_def CheckSeekEndConditions_def AppendPackets_def
      same_bookkeeping_def
      dest!: AppendPackets_loop_frame split: if_splits option.splits sum.splits)

lemma step_horizon:
  assumes "step tmax c st = Some (Inr st')"
  shows "buffered_packets_timestamp st' ty =
     (case c of
        CallPrepareForSeek t \<Rightarrow> 0
      | CallOnEsPacket message pkt \<Rightarrow>
          if packet_accepted message ty st then GetDts pkt else buffered_packets_timestamp st ty
      | _ \<Rightarrow> buffered_packets_timestamp st ty)"
proof (cases c)
  case (CallPrepareForSeek t)
  with assms show ?thesis by (cases ty) (auto simp: PrepareForSeek_def)
next
  case (CallOnEsPacket message pkt)
  with assms show ?thesis
    by (cases ty; cases message)
      (auto simp: OnEsPacket_def packet_accepted_def Let_def split: option.splits)
next
  case (CallOnNeedData x31 x32)
  with assms show ?thesis by (auto simp: OnNeedData_def)
next
  case (CallOnEnoughData x4)
  with assms show ?thesis by (auto simp: OnEnoughData_def)
next
  case (CallOnSeekData x51 x52)
  with assms show ?thesis
    by (auto simp: OnSeekData_def OnSeekData_mark_def OnSeekData_audio_def Let_def
        split: option.splits if_splits prod.splits)
next
  case (CallUpdateBuffer pt)
  with assms show ?thesis
    by (auto split: option.splits sum.splits dest: UpdateBuffer_horizon)
next
  case (CallSetStream x71 x72)
  with assms show ?thesis by (auto simp: SetStream_def)
qed

lemma registered_cases:
  "registered st =
     (if streams st Audio = None then {} else {Audio}) \<union>
     (if streams st Video = None then {} else {Video})"
proof (rule set_eqI)
  fix ty
  show "ty \<in> registered st \<longleftrightarrow>
        ty \<in> (if streams st Audio = None then {} else {Audio}) \<union>
             (if streams st Video = None then {} else {Video})"
    by (cases ty) (auto simp: registered_def)
qed

lemma AppendPackets_loop_stuck:
  assumes "AppendPackets_loop pt bt st = Some y"
  shows "\<not> top_without_sink pt bt st"
proof (rule AppendPackets_loop.raw_induct
    [where P = "\<lambda>pt bt st y. \<not> top_without_sink pt bt st", OF _ assms])
  fix f :: "TimeTicks \<Rightarrow> TimeTicks \<Rightarrow> PacketsManager \<Rightarrow> PacketsManager option"
    and pt bt st y
  assume IH: "\<And>pt bt st y. f pt bt st = Some y \<Longrightarrow> \<not> top_without_sink pt bt st"
    and body: "(case packets st of
        [] \<Rightarrow> Some st
      | p # ps \<Rightarrow>
          let packet_playback_position = GetDts (packet p) in
          if append_condition pt bt packet_playback_position then
            (let stream_id = type p in
             case streams st stream_id of
               Some sink \<Rightarrow>
                 f pt bt
                   (st\<lparr>packets := ps,
                      calls := calls st @ [AppendPacket stream_id (packet p)]\<rparr>)
             | None \<Rightarrow>
                 f pt bt
                   (st\<lparr>calls := calls st @ [LOG_ERROR (InvalidStreamIndex stream_id)]\<rparr>))
          else Some st) = Some y"
  show "\<not> top_without_sink pt bt st"
  proof
    assume "top_without_sink pt bt st"
    then obtain p ps where st: "packets st = p # ps" "may_append pt bt p"
        "streams st (type p) = None"
      by (auto simp: top_without_sink_def split: list.splits)
    let ?st' = "st\<lparr>calls := calls st @ [LOG_ERROR (InvalidStreamIndex (type p))]\<rparr>"
    from body st have "f pt bt ?st' = Some y"
      by (simp add: may_append_def)
    from IH [OF this] st show False
      by (simp add: top_without_sink_def)
  qed
qed

lemma AppendPackets_loop_diverges:
  "top_without_sink pt bt st \<Longrightarrow> AppendPackets_loop pt bt st = None"
  using AppendPackets_loop_stuck [of pt bt st] by (cases "AppendPackets_loop pt bt st") auto

lemma missing_sink_state_stuck: "1 < bt \<Longrightarrow> top_without_sink 0 bt missing_sink_state"
  by (simp add: top_without_sink_def missing_sink_state_def PacketsManager_init_def may_append_def
      append_condition_iff entry_def es_packet_def)

lemma AppendPackets_loop_eq:
  "\<forall>p \<in> set (takeWhile (may_append pt bt) (packets st)). streams st (type p) \<noteq> None \<Longrightarrow>
   AppendPackets_loop pt bt st =
     Some (st\<lparr>packets := dropWhile (may_append pt bt) (packets st),
              calls := calls st @
                map (\<lambda>p. AppendPacket (type p) (packet p))
                  (takeWhile (may_append pt bt) (packets st))\<rparr>)"
proof (induction "packets st" arbitrary: st)
  case Nil
  then show ?case
    by (subst AppendPackets_loop.simps) (simp add: Nil(1) [symmetric])
next
  case (Cons p ps)
  show ?case
  proof (cases "may_append pt bt p")
    case False
    then show ?thesis
      by (subst AppendPackets_loop.simps) (simp add: Cons(2) [symmetric] may_append_def)
  next
    case True
    with Cons(3) obtain sink where sink: "streams st (type p) = Some sink"
      by (auto simp: Cons(2) [symmetric])
    let ?st' = "st\<lparr>packets := ps, calls := calls st @ [AppendPacket (type p) (packet p)]\<rparr>"
    have "AppendPackets_loop pt bt st = AppendPackets_loop pt bt ?st'"
      using True sink
      by (subst AppendPackets_loop.simps) (simp add: Cons(2) [symmetric] may_append_def)
    also have "\<dots> = Some (?st'\<lparr>packets := dropWhile (may_append pt bt) (packets ?st'),
              calls := calls ?st' @
                map (\<lambda>p. AppendPacket (type p) (packet p))
                  (takeWhile (may_append pt bt) (packets ?st'))\<rparr>)"
      using Cons(3) True by (intro Cons(1)) (auto simp: Cons(2) [symmetric])
    finally show ?thesis using True
      by (simp add: Cons(2) [symmetric])
  qed
qed

lemma may_append_earlier:
  "may_append pt bt p \<Longrightarrow> GetDts (packet q) \<le> GetDts (packet p) \<Longrightarrow> may_append pt bt q"
  by (simp add: may_append_def append_condition_iff)

lemma takeWhile_may_append_sorted:
  "dts_sorted ps \<Longrightarrow> takeWhile (may_append pt bt) ps = filter (may_append pt bt) ps"
proof (induction ps)
  case Nil
  show ?case by simp
next
  case (Cons p ps)
  then have s: "dts_sorted ps" and le: "\<forall>q \<in> set ps. GetDts (packet p) \<le> GetDts (packet q)"
    by (simp_all add: dts_sorted_def)
  show ?case
  proof (cases "may_append pt bt p")
    case True
    then show ?thesis using Cons.IH [OF s] by simp
  next
    case False
    then have "\<forall>q \<in> set ps. \<not> may_append pt bt q"
      using le may_append_earlier by blast
    then have "filter (may_append pt bt) ps = []"
      by (simp add: filter_empty_conv)
    with False show ?thesis by simp
  qed
qed

lemma dropWhile_may_append_sorted:
  "dts_sorted ps \<Longrightarrow>
   dropWhile (may_append pt bt) ps = filter (\<lambda>p. \<not> may_append pt bt p) ps"
proof (induction ps)
  case Nil
  show ?case by simp
next
  case (Cons p ps)
  then have s: "dts_sorted ps" and le: "\<forall>q \<in> set ps. GetDts (packet p) \<le> GetDts (packet q)"
    by (simp_all add: dts_sorted_def)
  show ?case
  proof (cases "may_append pt bt p")
    case True
    then show ?thesis using Cons.IH [OF s] by simp
  next
    case False
    then have "\<forall>q \<in> set ps. \<not> may_append pt bt q"
      using le may_append_earlier by blast
    then have "filter (\<lambda>p. \<not> may_append pt bt p) ps = ps"
      by (simp add: filter_id_conv)
    with False show ?thesis by simp
  qed
qed

lemma dts_sorted_takeWhile: "dts_sorted ps \<Longrightarrow> dts_sorted (takeWhile P ps)"
  unfolding dts_sorted_def
  by (induction ps) (auto dest: set_takeWhileD)







text \<open>
  Every operation keeps the queue in ascending order of the timestamps, so the order that
  the properties below assume of the queue holds in every state a new manager reaches.
\<close>

lemma set_emplace: "set (emplace e ps) = insert e (set ps)"
  by (induction ps) auto

lemma dts_sorted_emplace: "dts_sorted ps \<Longrightarrow> dts_sorted (emplace e ps)"
  unfolding dts_sorted_def
  by (induction ps) (auto simp: set_emplace)

lemma dts_sorted_drop: "dts_sorted ps \<Longrightarrow> dts_sorted (drop k ps)"
  unfolding dts_sorted_def by (simp add: drop_map [symmetric] sorted_wrt_drop)

lemma AppendPackets_loop_suffix:
  assumes "AppendPackets_loop pt bt st = Some st'"
  shows "\<exists>k. packets st' = drop k (packets st)"
proof (rule AppendPackets_loop.raw_induct
    [where P = "\<lambda>pt bt st st'. \<exists>k. packets st' = drop k (packets st)", OF _ assms])
  fix f :: "TimeTicks \<Rightarrow> TimeTicks \<Rightarrow> PacketsManager \<Rightarrow> PacketsManager option"
    and pt bt st st'
  assume IH: "\<And>pt bt st st'. f pt bt st = Some st' \<Longrightarrow> \<exists>k. packets st' = drop k (packets st)"
    and body: "(case packets st of
        [] \<Rightarrow> Some st
      | p # ps \<Rightarrow>
          let packet_playback_position = GetDts (packet p) in
          if append_condition pt bt packet_playback_position then
            (let stream_id = type p in
             case streams st stream_id of
               Some sink \<Rightarrow>
                 f pt bt
                   (st\<lparr>packets := ps,
                      calls := calls st @ [AppendPacket stream_id (packet p)]\<rparr>)
             | None \<Rightarrow>
                 f pt bt
                   (st\<lparr>calls := calls st @ [LOG_ERROR (InvalidStreamIndex stream_id)]\<rparr>))
          else Some st) = Some st'"
  show "\<exists>k. packets st' = drop k (packets st)"
  proof (cases "packets st")
    case Nil
    with body show ?thesis by (auto intro: exI [of _ 0])
  next
    case (Cons p ps)
    show ?thesis
    proof (cases "append_condition pt bt (GetDts (packet p))")
      case False
      with body Cons have "st' = st" by simp
      then show ?thesis by (auto intro: exI [of _ 0])
    next
      case True
      show ?thesis
      proof (cases "streams st (type p)")
        case None
        with body Cons True IH [of pt bt "st\<lparr>calls := calls st @ [LOG_ERROR (InvalidStreamIndex (type p))]\<rparr>" st']
        show ?thesis by simp
      next
        case (Some sink)
        with body Cons True IH [of pt bt "st\<lparr>packets := ps, calls := calls st @ [AppendPacket (type p) (packet p)]\<rparr>" st']
        obtain k where "packets st' = drop k ps" by auto
        then have "packets st' = drop (Suc k) (packets st)" by (simp add: Cons)
        then show ?thesis ..
      qed
    qed
  qed
qed

lemma step_dts_sorted:
  assumes "step tmax c st = Some (Inr st')" and "dts_sorted (packets st)"
  shows "dts_sorted (packets st')"
proof (cases c)
  case (CallPrepareForSeek t)
  with assms show ?thesis by (auto simp: PrepareForSeek_def dts_sorted_def)
next
  case (CallOnEsPacket message pkt)
  with assms show ?thesis
    by (cases message)
      (auto simp: OnEsPacket_def Let_def dts_sorted_emplace split: option.splits if_splits)
next
  case (CallOnNeedData ty n)
  with assms show ?thesis by (auto simp: OnNeedData_def)
next
  case (CallOnEnoughData ty)
  with assms show ?thesis by (auto simp: OnEnoughData_def)
next
  case (CallOnSeekData ty t)
  with assms show ?thesis
    by (auto simp: OnSeekData_def OnSeekData_mark_def OnSeekData_audio_def Let_def
        split: option.splits if_splits prod.splits)
next
  case (CallUpdateBuffer pt)
  with assms obtain b where u: "UpdateBuffer tmax pt st = Some (Inr (b, st'))"
    by (auto split: option.splits sum.splits)
  let ?bt = "buffered_time_of tmax st"
  have c: "dts_sorted (packets (CheckSeekEndConditions_loop ?bt st))"
    using assms(2) by (simp add: CheckSeekEndConditions_loop_packets dts_sorted_dropWhile)
  from u consider "st' = st" | "st' = CheckSeekEndConditions_loop ?bt st"
    | "AppendPackets_loop pt ?bt st = Some st'"
    | "AppendPackets_loop pt ?bt (CheckSeekEndConditions_loop ?bt st) = Some st'"
    by (auto simp: UpdateBuffer_def Let_def CheckSeekEndConditions_def AppendPackets_def
        split: if_splits option.splits sum.splits)
  then show ?thesis
  proof cases
    case 1
    with assms(2) show ?thesis by simp
  next
    case 2
    with c show ?thesis by simp
  next
    case 3
    from AppendPackets_loop_suffix [OF 3] assms(2) show ?thesis
      by (auto simp: dts_sorted_drop)
  next
    case 4
    from AppendPackets_loop_suffix [OF 4] c show ?thesis
      by (auto simp: dts_sorted_drop)
  qed
next
  case (CallSetStream ty manager)
  with assms show ?thesis by (auto simp: SetStream_def)
qed

lemma AppendPackets_loop_returns:
  "AppendPackets_loop pt bt st = Some st' \<Longrightarrow>
   \<forall>p \<in> set (takeWhile (may_append pt bt) (packets st)). streams st (type p) \<noteq> None"
proof (induction "packets st" arbitrary: st)
  case Nil
  then show ?case by simp
next
  case (Cons p ps)
  show ?case
  proof (cases "may_append pt bt p")
    case False
    then show ?thesis by (simp add: Cons(2) [symmetric])
  next
    case True
    show ?thesis
    proof (cases "streams st (type p)")
      case None
      with True have "top_without_sink pt bt st"
        by (simp add: top_without_sink_def Cons(2) [symmetric])
      then have "AppendPackets_loop pt bt st = None"
        by (rule AppendPackets_loop_diverges)
      with Cons(3) show ?thesis by simp
    next
      case (Some sink)
      let ?st2 = "st\<lparr>packets := ps, calls := calls st @ [AppendPacket (type p) (packet p)]\<rparr>"
      have "AppendPackets_loop pt bt st = AppendPackets_loop pt bt ?st2"
        using True Some
        by (subst AppendPackets_loop.simps) (simp add: Cons(2) [symmetric] may_append_def)
      with Cons(3) have r: "AppendPackets_loop pt bt ?st2 = Some st'" by simp
      have "\<forall>q \<in> set (takeWhile (may_append pt bt) (packets ?st2)).
          streams ?st2 (type q) \<noteq> None"
        by (rule Cons(1) [OF _ r]) simp
      then show ?thesis
        using True Some by (simp add: Cons(2) [symmetric])
    qed
  qed
qed

text \<open>The pacing condition of an entry, written out.\<close>

lemma may_append_eq:
  "may_append playback_time buffered_time =
     (\<lambda>p. round_double (GetDts (packet p) - playback_time) < 4 \<and>
          GetDts (packet p) < buffered_time)"
  by (simp add: fun_eq_iff may_append_def append_condition_def TimeTicks_minus_def
      kAppendPacketsThreshold_def)

text \<open>
  \<^verbatim>\<open>OnEsPacket\<close> buffers a packet only for a stream with a sink, so every buffered
  entry has a sink as long as no sink is taken away.
\<close>

lemma step_keeps_sinks:
  assumes "step tmax c st = Some (Inr st')"
    and "\<forall>p \<in> set (packets st). streams st (type p) \<noteq> None"
    and "\<forall>ty. c \<noteq> CallSetStream ty None"
  shows "\<forall>p \<in> set (packets st'). streams st' (type p) \<noteq> None"
proof (cases c)
  case (CallPrepareForSeek t)
  with assms show ?thesis by (auto simp: PrepareForSeek_def)
next
  case (CallOnEsPacket message pkt)
  with assms show ?thesis
    by (cases message)
      (auto simp: OnEsPacket_def Let_def set_emplace split: option.splits if_splits)
next
  case (CallOnNeedData ty n)
  with assms show ?thesis by (auto simp: OnNeedData_def)
next
  case (CallOnEnoughData ty)
  with assms show ?thesis by (auto simp: OnEnoughData_def)
next
  case (CallOnSeekData ty t)
  with assms show ?thesis
    by (auto simp: OnSeekData_def OnSeekData_mark_def OnSeekData_audio_def Let_def
        split: option.splits if_splits prod.splits)
next
  case (CallUpdateBuffer pt)
  with assms obtain b where u: "UpdateBuffer tmax pt st = Some (Inr (b, st'))"
    by (auto split: option.splits sum.splits)
  let ?bt = "buffered_time_of tmax st"
  let ?st1 = "CheckSeekEndConditions_loop ?bt st"
  have f1: "streams ?st1 = streams st"
    using CheckSeekEndConditions_loop_frame [of ?bt st] by simp
  have p1: "set (packets ?st1) \<subseteq> set (packets st)"
    by (auto simp: CheckSeekEndConditions_loop_packets dest: set_dropWhileD)
  from u consider "st' = st" | "st' = ?st1"
    | "AppendPackets_loop pt ?bt st = Some st'"
    | "AppendPackets_loop pt ?bt ?st1 = Some st'"
    by (auto simp: UpdateBuffer_def Let_def CheckSeekEndConditions_def AppendPackets_def
        split: if_splits option.splits sum.splits)
  then show ?thesis
  proof cases
    case 1
    with assms(2) show ?thesis by simp
  next
    case 2
    with assms(2) f1 p1 show ?thesis by auto
  next
    case 3
    from AppendPackets_loop_suffix [OF 3] obtain k where "packets st' = drop k (packets st)" ..
    moreover from AppendPackets_loop_frame [OF 3] have "streams st' = streams st"
      by (simp add: same_bookkeeping_def)
    ultimately show ?thesis using assms(2) by (auto dest: in_set_dropD)
  next
    case 4
    from AppendPackets_loop_suffix [OF 4] obtain k where "packets st' = drop k (packets ?st1)" ..
    moreover from AppendPackets_loop_frame [OF 4] have "streams st' = streams ?st1"
      by (simp add: same_bookkeeping_def)
    ultimately show ?thesis using assms(2) f1 p1 by (auto dest!: in_set_dropD)
  qed
next
  case (CallSetStream ty manager)
  with assms(3) obtain sink where m: "manager = Some sink" by (cases manager) auto
  with assms CallSetStream show ?thesis by (auto simp: SetStream_def)
qed

text \<open>
  The stored start of the Video segment changes in two places only: \<^verbatim>\<open>PrepareForSeek\<close>
  resets it, and a seek data event for Video with a Video sink stores the start that the
  sink returns.
\<close>

lemma UpdateBuffer_video_time:
  assumes "UpdateBuffer tmax pt st = Some (Inr (b, st'))"
  shows "seek_segment_video_time st' = seek_segment_video_time st"
  using assms CheckSeekEndConditions_loop_frame [of "buffered_time_of tmax st" st]
  by (auto simp: UpdateBuffer_def Let_def CheckSeekEndConditions_def AppendPackets_def
      same_bookkeeping_def
      dest!: AppendPackets_loop_frame split: if_splits option.splits sum.splits)

lemma step_video_time:
  assumes "step tmax c st = Some (Inr st')"
  shows "seek_segment_video_time st' =
     (case c of
        CallPrepareForSeek t \<Rightarrow> 0
      | CallOnSeekData ty t \<Rightarrow>
          (case streams st Video of
             Some video_sink \<Rightarrow>
               if ty = Video then fst (SetSegmentToTime video_sink t)
               else seek_segment_video_time st
           | None \<Rightarrow> seek_segment_video_time st)
      | _ \<Rightarrow> seek_segment_video_time st)"
proof (cases c)
  case (CallPrepareForSeek t)
  with assms show ?thesis by (auto simp: PrepareForSeek_def)
next
  case (CallOnEsPacket message pkt)
  with assms show ?thesis
    by (cases message) (auto simp: OnEsPacket_def Let_def split: option.splits)
next
  case (CallOnNeedData ty n)
  with assms show ?thesis by (auto simp: OnNeedData_def)
next
  case (CallOnEnoughData ty)
  with assms show ?thesis by (auto simp: OnEnoughData_def)
next
  case (CallOnSeekData ty t)
  with assms show ?thesis
    by (cases ty)
      (auto simp: OnSeekData_def OnSeekData_mark_def OnSeekData_audio_def Let_def
        split: option.splits if_splits prod.splits)
next
  case (CallUpdateBuffer pt)
  with assms show ?thesis
    by (auto split: option.splits sum.splits dest: UpdateBuffer_video_time)
next
  case (CallSetStream ty manager)
  with assms show ?thesis by (auto simp: SetStream_def)
qed

lemma OnSeekData_streams: "streams (OnSeekData ty t st) = streams st"
  by (auto simp: OnSeekData_def OnSeekData_mark_def OnSeekData_audio_def Let_def
      split: option.splits prod.splits)

lemma OnSeekData_Video_resolved:
  "streams st Video = Some video_sink \<Longrightarrow>
   seek_segment_set (OnSeekData Video t st) Video \<and>
   seek_segment_video_time (OnSeekData Video t st) = fst (SetSegmentToTime video_sink t)"
  by (auto simp: OnSeekData_def OnSeekData_mark_def OnSeekData_audio_def Let_def
      split: option.splits prod.splits)

lemma OnSeekData_Audio_time:
  "seek_segment_video_time (OnSeekData Audio t st) = seek_segment_video_time st"
  by (auto simp: OnSeekData_def OnSeekData_mark_def OnSeekData_audio_def Let_def
      split: option.splits prod.splits)

lemma OnSeekData_lookup:
  "streams st Video = Some video_sink \<Longrightarrow>
   SegmentToTime Audio t \<in> set (new_calls st (OnSeekData ty new_time st)) \<longleftrightarrow>
     streams st Audio \<noteq> None \<and>
     (if ty = Audio then seek_segment_set st Video \<and> t = seek_segment_video_time st
      else seek_segment_set st Audio \<and> t = fst (SetSegmentToTime video_sink new_time))"
  by (cases ty)
    (auto simp: OnSeekData_def OnSeekData_mark_def OnSeekData_audio_def Let_def new_calls_def
      split: option.splits prod.splits)

lemma OnSeekData_lookup_no_video:
  "streams st Video = None \<Longrightarrow>
   SegmentToTime Audio t \<in> set (new_calls st (OnSeekData ty new_time st)) \<longleftrightarrow>
     streams st Audio \<noteq> None \<and> ty = Audio \<and> t = new_time"
  by (cases ty)
    (auto simp: OnSeekData_def OnSeekData_mark_def OnSeekData_audio_def Let_def new_calls_def
      split: option.splits prod.splits)

lemma OnSeekData_flags:
  "streams st Video = Some video_sink \<Longrightarrow> streams st Audio \<noteq> None \<Longrightarrow>
   seek_segment_set (OnSeekData ty new_time st) =
     (seek_segment_set st)(ty := True)"
  by (cases ty)
    (auto simp: OnSeekData_def OnSeekData_mark_def OnSeekData_audio_def Let_def fun_eq_iff
      split: option.splits prod.splits)

section \<open>Properties of the seek end check\<close>

text \<open>
  Claim C6. Let a seek be in progress and let the queue yield its entries by ascending
  timestamp. \<^verbatim>\<open>CheckSeekEndConditions\<close> returns. It removes the longest run of
  entries at the front that are within the buffered time and do not end the seek, and
  nothing else: the queue afterwards is the rest, in its order. If the rest starts with an
  entry within the buffered time, that entry ends the seek and the seeking flag is cleared;
  the entry and all entries behind it stay. Otherwise the flag stays set, and no entry that
  is left is within the buffered time.
\<close>

theorem check_seek_end_discards:
  assumes "seeking st" and "dts_sorted (packets st)"
  shows "\<exists>st'. CheckSeekEndConditions buffered_time st = Inr st' \<and>
           packets st' = dropWhile (dropped_by_seek buffered_time st) (packets st) \<and>
           packets st = takeWhile (dropped_by_seek buffered_time st) (packets st) @ packets st' \<and>
           (case packets st' of
              [] \<Rightarrow> seeking st'
            | p # ps \<Rightarrow>
                if GetDts (packet p) \<le> buffered_time then ends_seek st p \<and> \<not> seeking st'
                else seeking st' \<and>
                     (\<forall>q \<in> set (packets st'). buffered_time < GetDts (packet q)))"
proof -
  let ?st' = "CheckSeekEndConditions_loop buffered_time st"
  let ?rest = "dropWhile (dropped_by_seek buffered_time st) (packets st)"
  have r: "CheckSeekEndConditions buffered_time st = Inr ?st'"
    using assms(1) by (simp add: CheckSeekEndConditions_def)
  have p: "packets ?st' = ?rest"
    by (rule CheckSeekEndConditions_loop_packets)
  have s: "dts_sorted ?rest"
    using assms(2) by (rule dts_sorted_dropWhile)
  have c: "(case ?rest of
              [] \<Rightarrow> seeking ?st'
            | p # ps \<Rightarrow>
                if GetDts (packet p) \<le> buffered_time then ends_seek st p \<and> \<not> seeking ?st'
                else seeking ?st' \<and> (\<forall>q \<in> set ?rest. buffered_time < GetDts (packet q)))"
  proof (cases ?rest)
    case Nil
    show ?thesis using assms(1) by (simp add: CheckSeekEndConditions_loop_seeking Nil)
  next
    case (Cons p ps)
    then have "\<not> dropped_by_seek buffered_time st p"
      using hd_dropWhile [of "dropped_by_seek buffered_time st" "packets st"] by simp
    moreover have "\<forall>q \<in> set ?rest. buffered_time < GetDts (packet q)"
      if "buffered_time < GetDts (packet p)"
      using sorted_beyond [OF s [unfolded Cons] that] by (simp add: Cons)
    ultimately show ?thesis
      using assms(1)
      by (simp add: CheckSeekEndConditions_loop_seeking Cons dropped_by_seek_def not_less)
  qed
  show ?thesis
  proof (intro exI [of _ ?st'] conjI)
    show "CheckSeekEndConditions buffered_time st = Inr ?st'"
      by (rule r)
    show "packets ?st' = ?rest"
      by (rule p)
    show "packets st = takeWhile (dropped_by_seek buffered_time st) (packets st) @ packets ?st'"
      by (simp add: p)
    show "case packets ?st' of
            [] \<Rightarrow> seeking ?st'
          | p # ps \<Rightarrow>
              if GetDts (packet p) \<le> buffered_time then ends_seek st p \<and> \<not> seeking ?st'
              else seeking ?st' \<and> (\<forall>q \<in> set (packets ?st'). buffered_time < GetDts (packet q))"
      unfolding p by (rule c)
  qed
qed

theorem check_seek_end_discards_witness:
  "seeking (seek_scenario False True True) \<and>
   dts_sorted (packets (seek_scenario False True True)) \<and>
   (\<exists>st'. CheckSeekEndConditions 2 (seek_scenario False True True) = Inr st' \<and>
      packets st' =
        dropWhile (dropped_by_seek 2 (seek_scenario False True True))
          (packets (seek_scenario False True True)))"
proof -
  have h1: "seeking (seek_scenario False True True)"
    by (simp add: seek_scenario_def)
  have h2: "dts_sorted (packets (seek_scenario False True True))"
    by (simp add: seek_scenario_def dts_sorted_def entry_def es_packet_def)
  from check_seek_end_discards [OF h1 h2, of 2] h1 h2 show ?thesis
    by blast
qed

text \<open>
  The claim C1 as it is written fails: with only an Audio sink, the Audio packet at 1 is
  within the buffered time 2 but does not carry the keyframe flag; it is removed and the
  seek ends at the next Audio packet, the one at 2.
\<close>

theorem audio_without_keyframe_flag_counterexample:
  "CheckSeekEndConditions 2 audio_only_state =
     Inr (audio_only_state
            \<lparr>packets := [entry Audio 2 True], seeking := False,
             calls := [LOG_DEBUG (SeekFinishing 2 Audio 1)]\<rparr>)"
  by (simp add: CheckSeekEndConditions_def CheckSeekEndConditions_loop_eq audio_only_state_def
      PacketsManager_init_def dropped_by_seek_def ends_seek_def entry_def es_packet_def)

text \<open>
  Claim C1, amended. With only an Audio sink and a seek in progress,
  \<^verbatim>\<open>CheckSeekEndConditions\<close> removes every entry at the front that is within the
  buffered time and is not an Audio packet that carries the keyframe flag. The seek ends,
  and the flag is cleared, exactly when the first entry left is within the buffered time:
  it is then an Audio packet with the keyframe flag.
\<close>

theorem audio_only_seek_end:
  assumes "streams st Video = None" and "streams st Audio \<noteq> None" and "seeking st"
  shows "\<exists>st'. CheckSeekEndConditions buffered_time st = Inr st' \<and>
           packets st' =
             dropWhile (\<lambda>p. GetDts (packet p) \<le> buffered_time \<and>
                           \<not> (type p = Audio \<and> IsKeyFrame (packet p))) (packets st) \<and>
           seeking st' =
             (case packets st' of [] \<Rightarrow> True | p # ps \<Rightarrow> buffered_time < GetDts (packet p))"
proof -
  have d: "dropped_by_seek buffered_time st =
      (\<lambda>p. GetDts (packet p) \<le> buffered_time \<and> \<not> (type p = Audio \<and> IsKeyFrame (packet p)))"
    using assms(1,2) by (auto simp: dropped_by_seek_def ends_seek_def fun_eq_iff)
  let ?st' = "CheckSeekEndConditions_loop buffered_time st"
  have p: "packets ?st' = dropWhile (dropped_by_seek buffered_time st) (packets st)"
    by (rule CheckSeekEndConditions_loop_packets)
  have s: "seeking ?st' =
     (case packets ?st' of [] \<Rightarrow> True | p # ps \<Rightarrow> buffered_time < GetDts (packet p))"
  proof (cases "dropWhile (dropped_by_seek buffered_time st) (packets st)")
    case Nil
    show ?thesis
      using assms(3) by (simp add: p Nil CheckSeekEndConditions_loop_seeking)
  next
    case (Cons q qs)
    show ?thesis
      using assms(3) by (simp add: p Cons CheckSeekEndConditions_loop_seeking)
  qed
  show ?thesis
  proof (intro exI [of _ ?st'] conjI)
    show "CheckSeekEndConditions buffered_time st = Inr ?st'"
      using assms(3) by (simp add: CheckSeekEndConditions_def)
    show "packets ?st' =
        dropWhile (\<lambda>p. GetDts (packet p) \<le> buffered_time \<and>
                      \<not> (type p = Audio \<and> IsKeyFrame (packet p))) (packets st)"
      using p by (simp add: d)
    show "seeking ?st' =
        (case packets ?st' of [] \<Rightarrow> True | p # ps \<Rightarrow> buffered_time < GetDts (packet p))"
      by (rule s)
  qed
qed

theorem audio_only_seek_end_witness:
  "streams audio_only_state Video = None \<and> streams audio_only_state Audio \<noteq> None \<and>
   seeking audio_only_state \<and>
   (\<exists>st'. CheckSeekEndConditions 2 audio_only_state = Inr st' \<and>
      packets st' = [entry Audio 2 True] \<and> seeking st' = False)"
proof -
  have h1: "streams audio_only_state Video = None"
    by (simp add: audio_only_state_def)
  have h2: "streams audio_only_state Audio \<noteq> None"
    by (simp add: audio_only_state_def)
  have h3: "seeking audio_only_state"
    by (simp add: audio_only_state_def)
  from audio_only_seek_end [OF h1 h2 h3, of 2] obtain st'
    where r: "CheckSeekEndConditions 2 audio_only_state = Inr st'"
      and p: "packets st' =
        dropWhile (\<lambda>p. GetDts (packet p) \<le> 2 \<and> \<not> (type p = Audio \<and> IsKeyFrame (packet p)))
          (packets audio_only_state)"
      and s: "seeking st' =
        (case packets st' of [] \<Rightarrow> True | p # ps \<Rightarrow> 2 < GetDts (packet p))"
    by blast
  have p': "packets st' = [entry Audio 2 True]"
    using p by (simp add: audio_only_state_def entry_def es_packet_def)
  have "seeking st' = False"
    using s by (simp add: p' entry_def es_packet_def)
  with r p' h1 h2 h3 show ?thesis
    by blast
qed

text \<open>
  The claim C4 as it is written fails: the end check never removes the Video keyframe at
  1.0 that ends the seek. With the Video entry first at 1.0 nothing is removed; with the
  Audio entry first only that Audio entry is.
\<close>

theorem seek_scenario_counterexample:
  "CheckSeekEndConditions 2 (seek_scenario True True True) =
     Inr ((seek_scenario True True True)
            \<lparr>seeking := False, calls := [LOG_DEBUG (SeekFinishing 1 Video 6)]\<rparr>) \<and>
   CheckSeekEndConditions 2 (seek_scenario False True True) =
     Inr ((seek_scenario False True True)
            \<lparr>packets := tl (packets (seek_scenario False True True)),
             seeking := False, calls := [LOG_DEBUG (SeekFinishing 1 Video 5)]\<rparr>) \<and>
   entry Video 1 True \<in> set (packets (seek_scenario True True True)) \<and>
   entry Video 1 True \<in> set (tl (packets (seek_scenario False True True)))"
  by (simp add: CheckSeekEndConditions_def CheckSeekEndConditions_loop_eq seek_scenario_def
      PacketsManager_init_def dropped_by_seek_def ends_seek_def entry_def es_packet_def)

text \<open>
  Claim C4, amended. In the seek scenario, whatever the order of the entries with equal
  timestamps, \<^verbatim>\<open>CheckSeekEndConditions\<close> with the buffered time 2.0 ends the seek at
  the Video keyframe at 1.0. That keyframe stays in the queue with every entry at 1.5 and
  2.0; the Audio entry at 1.0 is removed exactly when it was in front of the keyframe.
\<close>

theorem seek_scenario_end:
  "CheckSeekEndConditions 2 (seek_scenario v1 v2 v3) =
     Inr ((seek_scenario v1 v2 v3)
            \<lparr>packets :=
               (if v1 then [entry Video 1 True, entry Audio 1 True] else [entry Video 1 True]) @
               (if v2 then [entry Video 1.5 False, entry Audio 1.5 True]
                else [entry Audio 1.5 True, entry Video 1.5 False]) @
               (if v3 then [entry Video 2 True, entry Audio 2 True]
                else [entry Audio 2 True, entry Video 2 True]),
             seeking := False,
             calls := [LOG_DEBUG (SeekFinishing 1 Video (if v1 then 6 else 5))]\<rparr>)"
  by (simp add: CheckSeekEndConditions_def CheckSeekEndConditions_loop_eq seek_scenario_def
      PacketsManager_init_def dropped_by_seek_def ends_seek_def entry_def es_packet_def)

section \<open>Properties of the horizons\<close>

text \<open>
  The claim C5 as it is written fails: an accepted packet sets the horizon of its stream
  to its own timestamp, also to a smaller one. After the Audio packets at 5 and at 3 the
  Audio horizon is 3, and no seek was prepared.
\<close>

theorem horizon_counterexample:
  "buffered_packets_timestamp
     (OnEsPacket kAudioPkt (es_packet 5 True)
        (SetStream Audio (Some example_sink) PacketsManager_init)) Audio = 5 \<and>
   buffered_packets_timestamp
     (OnEsPacket kAudioPkt (es_packet 3 True)
        (OnEsPacket kAudioPkt (es_packet 5 True)
           (SetStream Audio (Some example_sink) PacketsManager_init))) Audio = 3"
  by (simp add: OnEsPacket_def SetStream_def PacketsManager_init_def es_packet_def
      example_sink_def)

text \<open>
  Claim C5, amended. Over one operation that returns, the horizon of a stream becomes 0 in
  \<^verbatim>\<open>PrepareForSeek\<close>, becomes the timestamp of the packet when
  \<^verbatim>\<open>OnEsPacket\<close> accepts a packet of the stream, and is unchanged otherwise. So it
  does not decrease unless the operation is \<^verbatim>\<open>PrepareForSeek\<close> or accepts a packet
  whose timestamp is below the horizon.
\<close>

theorem horizon_changes:
  assumes "step tmax c st = Some (Inr st')"
  shows "buffered_packets_timestamp st' ty =
           (case c of
              CallPrepareForSeek t \<Rightarrow> 0
            | CallOnEsPacket message pkt \<Rightarrow>
                if packet_accepted message ty st then GetDts pkt
                else buffered_packets_timestamp st ty
            | _ \<Rightarrow> buffered_packets_timestamp st ty) \<and>
         ((\<forall>t. c \<noteq> CallPrepareForSeek t) \<and>
          (\<forall>message pkt. c = CallOnEsPacket message pkt \<and> packet_accepted message ty st \<longrightarrow>
             buffered_packets_timestamp st ty \<le> GetDts pkt) \<longrightarrow>
          buffered_packets_timestamp st ty \<le> buffered_packets_timestamp st' ty)"
  using step_horizon [OF assms, of ty]
  by (cases c) auto

theorem horizon_changes_witness:
  "step DBL_MAX (CallOnEsPacket kAudioPkt (es_packet 5 True)) audio_sink_state =
     Some (Inr (OnEsPacket kAudioPkt (es_packet 5 True) audio_sink_state)) \<and>
   buffered_packets_timestamp audio_sink_state Audio = 0 \<and>
   buffered_packets_timestamp (OnEsPacket kAudioPkt (es_packet 5 True) audio_sink_state) Audio = 5 \<and>
   buffered_packets_timestamp audio_sink_state Audio
     \<le> buffered_packets_timestamp (OnEsPacket kAudioPkt (es_packet 5 True) audio_sink_state) Audio"
proof -
  have h: "step DBL_MAX (CallOnEsPacket kAudioPkt (es_packet 5 True)) audio_sink_state =
     Some (Inr (OnEsPacket kAudioPkt (es_packet 5 True) audio_sink_state))"
    by simp
  have z: "buffered_packets_timestamp audio_sink_state Audio = 0"
    by (simp add: audio_sink_state_def SetStream_def PacketsManager_init_def)
  from horizon_changes [OF h, of Audio] z h show ?thesis
    by (simp add: packet_accepted_def audio_sink_state_def SetStream_def example_sink_def
        es_packet_def)
qed

text \<open>
  Claim C7. The buffered time that \<^verbatim>\<open>UpdateBuffer\<close> computes is the least of the
  largest time value and the horizons of the streams that have a sink. When those horizons
  are not above the largest time value and a stream has a sink, it is the least horizon of
  the streams that have a sink; when no stream has a sink, it is the largest time value.
\<close>

theorem buffered_time_is_min_horizon:
  "buffered_time_of tmax st =
     Min (insert tmax (buffered_packets_timestamp st ` registered st)) \<and>
   ((\<forall>ty \<in> registered st. buffered_packets_timestamp st ty \<le> tmax) \<and> registered st \<noteq> {} \<longrightarrow>
      buffered_time_of tmax st = Min (buffered_packets_timestamp st ` registered st)) \<and>
   (registered st = {} \<longrightarrow> buffered_time_of tmax st = tmax)"
  by (auto simp: registered_cases buffered_time_of_def Let_def min_def)

theorem buffered_time_is_min_horizon_witness:
  "registered two_horizons_state = {Audio, Video} \<and>
   buffered_packets_timestamp two_horizons_state Audio = 3 \<and>
   buffered_packets_timestamp two_horizons_state Video = 5 \<and>
   buffered_time_of DBL_MAX two_horizons_state =
     Min (buffered_packets_timestamp two_horizons_state ` registered two_horizons_state) \<and>
   buffered_time_of DBL_MAX two_horizons_state = 3"
proof -
  have r: "registered two_horizons_state = {Audio, Video}"
    by (auto simp: registered_cases two_horizons_state_def)
  have a: "buffered_packets_timestamp two_horizons_state Audio = 3"
    and v: "buffered_packets_timestamp two_horizons_state Video = 5"
    by (simp_all add: two_horizons_state_def)
  have b: "\<forall>ty \<in> registered two_horizons_state.
      buffered_packets_timestamp two_horizons_state ty \<le> DBL_MAX"
    by (simp add: r a v DBL_MAX_def)
  have n: "registered two_horizons_state \<noteq> {}"
    by (simp add: r)
  from buffered_time_is_min_horizon [of DBL_MAX two_horizons_state] b n
  have m: "buffered_time_of DBL_MAX two_horizons_state =
      Min (buffered_packets_timestamp two_horizons_state ` registered two_horizons_state)"
    by blast
  have "Min (buffered_packets_timestamp two_horizons_state ` registered two_horizons_state) = 3"
    by (simp add: r a v)
  with m r a v show ?thesis by simp
qed

section \<open>Properties of the seek data events\<close>

text \<open>
  Claim C10. \<^verbatim>\<open>OnSeekData\<close> with a Video sink: the Audio segment is looked up
  exactly when there is an Audio sink and, after the event, both streams are marked; the
  time looked up is the stored start of the Video segment. A Video event stores the start
  that the Video sink returns for its time; an Audio event leaves the stored start as it
  is. So at an Audio event the lookup takes place when Video is marked already, at the
  start stored before the event, and at a Video event when Audio is marked already, at the
  start just returned; an Audio event that follows a Video event looks up the start of that
  Video segment, whatever its own time. Without a Video sink: the Audio segment is looked
  up exactly when the event is for Audio and there is an Audio sink, at the time of the
  event.
\<close>

theorem audio_seek_target:
  "(streams st Video \<noteq> None \<longrightarrow>
      (SegmentToTime Audio t \<in> set (new_calls st (OnSeekData ty new_time st)) \<longleftrightarrow>
         streams st Audio \<noteq> None \<and>
         seek_segment_set (OnSeekData ty new_time st) Audio \<and>
         seek_segment_set (OnSeekData ty new_time st) Video \<and>
         t = seek_segment_video_time (OnSeekData ty new_time st))) \<and>
   (\<forall>video_sink. streams st Video = Some video_sink \<and> ty = Video \<longrightarrow>
      seek_segment_video_time (OnSeekData ty new_time st) =
        fst (SetSegmentToTime video_sink new_time)) \<and>
   (streams st Video = None \<longrightarrow>
      (SegmentToTime Audio t \<in> set (new_calls st (OnSeekData ty new_time st)) \<longleftrightarrow>
         streams st Audio \<noteq> None \<and> ty = Audio \<and> t = new_time)) \<and>
   (ty = Audio \<longrightarrow>
      seek_segment_video_time (OnSeekData ty new_time st) = seek_segment_video_time st) \<and>
   (\<forall>video_sink. streams st Video = Some video_sink \<longrightarrow>
      (SegmentToTime Audio t \<in> set (new_calls st (OnSeekData ty new_time st)) \<longleftrightarrow>
         streams st Audio \<noteq> None \<and>
         (if ty = Audio then seek_segment_set st Video \<and> t = seek_segment_video_time st
          else seek_segment_set st Audio \<and> t = fst (SetSegmentToTime video_sink new_time)))) \<and>
   (\<forall>video_sink. streams st Video = Some video_sink \<and> streams st Audio \<noteq> None \<longrightarrow>
      (SegmentToTime Audio t \<in>
         set (new_calls (OnSeekData Video video_time st)
                (OnSeekData Audio new_time (OnSeekData Video video_time st))) \<longleftrightarrow>
       t = fst (SetSegmentToTime video_sink video_time)))"
proof (intro conjI allI impI)
  assume "streams st Video \<noteq> None"
  then show "SegmentToTime Audio t \<in> set (new_calls st (OnSeekData ty new_time st)) \<longleftrightarrow>
         streams st Audio \<noteq> None \<and>
         seek_segment_set (OnSeekData ty new_time st) Audio \<and>
         seek_segment_set (OnSeekData ty new_time st) Video \<and>
         t = seek_segment_video_time (OnSeekData ty new_time st)"
    by (cases ty)
      (auto simp: OnSeekData_def OnSeekData_mark_def OnSeekData_audio_def Let_def new_calls_def
        split: option.splits prod.splits)
next
  fix video_sink
  assume "streams st Video = Some video_sink \<and> ty = Video"
  then show "seek_segment_video_time (OnSeekData ty new_time st) =
        fst (SetSegmentToTime video_sink new_time)"
    by (simp add: OnSeekData_Video_resolved)
next
  assume "streams st Video = None"
  then show "SegmentToTime Audio t \<in> set (new_calls st (OnSeekData ty new_time st)) \<longleftrightarrow>
         streams st Audio \<noteq> None \<and> ty = Audio \<and> t = new_time"
    by (rule OnSeekData_lookup_no_video)
next
  assume "ty = Audio"
  then show "seek_segment_video_time (OnSeekData ty new_time st) = seek_segment_video_time st"
    by (simp add: OnSeekData_Audio_time)
next
  fix video_sink
  assume "streams st Video = Some video_sink"
  then show "SegmentToTime Audio t \<in> set (new_calls st (OnSeekData ty new_time st)) \<longleftrightarrow>
         streams st Audio \<noteq> None \<and>
         (if ty = Audio then seek_segment_set st Video \<and> t = seek_segment_video_time st
          else seek_segment_set st Audio \<and> t = fst (SetSegmentToTime video_sink new_time))"
    by (rule OnSeekData_lookup)
next
  fix video_sink
  assume h: "streams st Video = Some video_sink \<and> streams st Audio \<noteq> None"
  let ?st1 = "OnSeekData Video video_time st"
  have v: "streams ?st1 Video = Some video_sink" and a: "streams ?st1 Audio \<noteq> None"
    using h by (simp_all add: OnSeekData_streams)
  from h have r: "seek_segment_set ?st1 Video"
    "seek_segment_video_time ?st1 = fst (SetSegmentToTime video_sink video_time)"
    by (simp_all add: OnSeekData_Video_resolved)
  show "SegmentToTime Audio t \<in> set (new_calls ?st1 (OnSeekData Audio new_time ?st1)) \<longleftrightarrow>
       t = fst (SetSegmentToTime video_sink video_time)"
    using OnSeekData_lookup [OF v, of t Audio new_time] a r by simp
qed

theorem audio_seek_target_witness:
  "streams (OnSeekData Audio 7 (seek_scenario True True True)) Video \<noteq> None \<and>
   new_calls (seek_scenario True True True) (OnSeekData Audio 7 (seek_scenario True True True)) = [] \<and>
   SegmentToTime Audio 4 \<in>
     set (new_calls (OnSeekData Audio 7 (seek_scenario True True True))
            (OnSeekData Video 5 (OnSeekData Audio 7 (seek_scenario True True True)))) \<and>
   streams audio_only_state Video = None \<and>
   SegmentToTime Audio 7 \<in> set (new_calls audio_only_state (OnSeekData Audio 7 audio_only_state)) \<and>
   streams (seek_scenario True True True) Video = Some example_sink \<and>
   streams (seek_scenario True True True) Audio \<noteq> None \<and>
   SegmentToTime Audio 4 \<in>
     set (new_calls (OnSeekData Video 5 (seek_scenario True True True))
            (OnSeekData Audio 7 (OnSeekData Video 5 (seek_scenario True True True)))) \<and>
   SegmentToTime Audio 7 \<notin>
     set (new_calls (OnSeekData Video 5 (seek_scenario True True True))
            (OnSeekData Audio 7 (OnSeekData Video 5 (seek_scenario True True True)))) \<and>
   seek_segment_video_time
     (OnSeekData Audio 7 (OnSeekData Video 5 (seek_scenario True True True))) = 4"
proof -
  let ?st0 = "seek_scenario True True True"
  let ?st1 = "?st0\<lparr>seek_segment_set := (\<lambda>_. False)(Audio := True)\<rparr>"
  let ?st2 = "?st0\<lparr>seek_segment_set := (\<lambda>_. True), seek_segment_video_time := 4,
       calls := [SegmentToTime Video 5, LOG_DEBUG (SeekToVideoSegment 4 (TimeTicks_plus 4 2)),
                 SegmentToTime Audio 4, LOG_DEBUG (SeekToAudioSegment 4 (TimeTicks_plus 4 2))]\<rparr>"
  have e1: "OnSeekData Audio 7 ?st0 = ?st1"
    by (simp add: OnSeekData_def OnSeekData_mark_def OnSeekData_audio_def seek_scenario_def
        PacketsManager_init_def)
  have e2: "OnSeekData Video 5 ?st1 = ?st2"
    by (simp add: OnSeekData_def OnSeekData_mark_def OnSeekData_audio_def seek_scenario_def
        PacketsManager_init_def example_sink_def fun_eq_iff)
  have h: "streams ?st1 Video \<noteq> None" and s: "streams ?st1 Audio \<noteq> None"
    by (simp_all add: seek_scenario_def)
  have n: "new_calls ?st0 ?st1 = []"
    by (simp add: new_calls_def)
  have c1: "SegmentToTime Audio 4 \<in> set (new_calls ?st1 (OnSeekData Video 5 ?st1))"
    using audio_seek_target [of ?st1 4 Video 5] h s
    unfolding e2 by simp
  have nv: "streams audio_only_state Video = None"
    and a: "streams audio_only_state Audio \<noteq> None"
    by (simp_all add: audio_only_state_def)
  have c2: "SegmentToTime Audio 7 \<in>
      set (new_calls audio_only_state (OnSeekData Audio 7 audio_only_state))"
    using audio_seek_target [of audio_only_state 7 Audio 7] nv a
    by simp
  have v0: "streams ?st0 Video = Some example_sink" and a0: "streams ?st0 Audio \<noteq> None"
    by (simp_all add: seek_scenario_def)
  have f: "fst (SetSegmentToTime example_sink 5) = 4"
    by (simp add: example_sink_def)
  have c3: "SegmentToTime Audio 4 \<in>
      set (new_calls (OnSeekData Video 5 ?st0) (OnSeekData Audio 7 (OnSeekData Video 5 ?st0)))"
    using audio_seek_target [where st = ?st0 and t = 4 and video_time = 5 and new_time = 7]
      v0 a0 f
    by simp
  have c4: "SegmentToTime Audio 7 \<notin>
      set (new_calls (OnSeekData Video 5 ?st0) (OnSeekData Audio 7 (OnSeekData Video 5 ?st0)))"
    using audio_seek_target [where st = ?st0 and t = 7 and video_time = 5 and new_time = 7]
      v0 a0 f
    by simp
  have c5: "seek_segment_video_time (OnSeekData Audio 7 (OnSeekData Video 5 ?st0)) = 4"
    using audio_seek_target
        [where st = "OnSeekData Video 5 ?st0" and ty = Audio and new_time = 7]
      audio_seek_target [where st = ?st0 and ty = Video and new_time = 5] v0 f
    by simp
  show ?thesis
    using h n c1 nv c2 v0 a0 c3 c4 c5 by (simp only: e1 simp_thms)
qed

section \<open>Properties of the pacing loop\<close>

text \<open>
  Claim C8. \<^verbatim>\<open>AppendPackets\<close> is called when no seek is in progress, and it hands
  an entry to the sink of its stream. An entry is due when the difference of its timestamp
  and the playback time, a difference of doubles, is below 4 and its timestamp is below the
  buffered time. If every entry of the longest run of due entries at the front has a sink,
  as every buffered entry has unless a sink was taken away (the case of claim C2), then
  \<^verbatim>\<open>AppendPackets\<close> returns, has handed that run to the sinks in the order of the
  queue, and has left the rest. Whenever \<^verbatim>\<open>AppendPackets\<close> returns, that is the
  state it returns. When the queue yields its entries by ascending timestamp, the entries
  handed over are in ascending order and are all the due entries. In the pacing scenario
  (entries at 1, 2, 3 and 5, playback time 0, buffered time 10) the entries at 1, 2 and 3
  are handed over and the entry at 5 stays.
\<close>

theorem pace_delivers:
  fixes playback_time buffered_time :: TimeTicks and st :: PacketsManager
  defines "due \<equiv> \<lambda>p. round_double (GetDts (packet p) - playback_time) < 4 \<and>
                      GetDts (packet p) < buffered_time"
  assumes "\<not> seeking st"
  shows "((\<forall>p \<in> set (takeWhile due (packets st)). streams st (type p) \<noteq> None) \<longrightarrow>
            AppendPackets playback_time buffered_time st =
              Some (Inr (st\<lparr>packets := dropWhile due (packets st),
                            calls := calls st @
                              map (\<lambda>p. AppendPacket (type p) (packet p))
                                (takeWhile due (packets st))\<rparr>))) \<and>
         (\<forall>st'. AppendPackets playback_time buffered_time st = Some (Inr st') \<longrightarrow>
            st' = st\<lparr>packets := dropWhile due (packets st),
                      calls := calls st @
                        map (\<lambda>p. AppendPacket (type p) (packet p))
                          (takeWhile due (packets st))\<rparr>) \<and>
         (dts_sorted (packets st) \<longrightarrow>
            dts_sorted (takeWhile due (packets st)) \<and>
            takeWhile due (packets st) = filter due (packets st) \<and>
            dropWhile due (packets st) = filter (\<lambda>p. \<not> due p) (packets st)) \<and>
         AppendPackets 0 10 pace_scenario =
           Some (Inr (pace_scenario
                        \<lparr>packets := [entry Audio 5 True],
                         calls := [AppendPacket Video (es_packet 1 True),
                                   AppendPacket Audio (es_packet 2 True),
                                   AppendPacket Video (es_packet 3 False)]\<rparr>))"
proof (intro conjI impI allI)
  have w: "due = may_append playback_time buffered_time"
    by (simp add: due_def may_append_eq)
  {
    assume k: "\<forall>p \<in> set (takeWhile due (packets st)). streams st (type p) \<noteq> None"
    show "AppendPackets playback_time buffered_time st =
             Some (Inr (st\<lparr>packets := dropWhile due (packets st),
                           calls := calls st @
                             map (\<lambda>p. AppendPacket (type p) (packet p))
                               (takeWhile due (packets st))\<rparr>))"
      using assms(2) AppendPackets_loop_eq [OF k [unfolded w]]
      by (simp add: AppendPackets_def w)
  }
  {
    fix st'
    assume r: "AppendPackets playback_time buffered_time st = Some (Inr st')"
    then have l: "AppendPackets_loop playback_time buffered_time st = Some st'"
      using assms(2) by (auto simp: AppendPackets_def)
    from AppendPackets_loop_eq [OF AppendPackets_loop_returns [OF l]] l
    show "st' = st\<lparr>packets := dropWhile due (packets st),
                      calls := calls st @
                        map (\<lambda>p. AppendPacket (type p) (packet p))
                          (takeWhile due (packets st))\<rparr>"
      by (simp add: w)
  }
  {
    assume o: "dts_sorted (packets st)"
    show "dts_sorted (takeWhile due (packets st))"
      by (rule dts_sorted_takeWhile [OF o])
    show "takeWhile due (packets st) = filter due (packets st)"
      unfolding w by (rule takeWhile_may_append_sorted [OF o])
    show "dropWhile due (packets st) = filter (\<lambda>p. \<not> due p) (packets st)"
      unfolding w by (rule dropWhile_may_append_sorted [OF o])
  }
  have s: "\<not> seeking pace_scenario"
    by (simp add: pace_scenario_def PacketsManager_init_def)
  have t: "takeWhile (may_append 0 10) (packets pace_scenario) =
      [entry Video 1 True, entry Audio 2 True, entry Video 3 False]"
    and d: "dropWhile (may_append 0 10) (packets pace_scenario) = [entry Audio 5 True]"
    by (simp_all add: pace_scenario_def may_append_def append_condition_iff
        entry_def es_packet_def)
  have k: "\<forall>p \<in> set (takeWhile (may_append 0 10) (packets pace_scenario)).
      streams pace_scenario (type p) \<noteq> None"
    unfolding t by (simp add: pace_scenario_def)
  have c: "calls pace_scenario = []"
    by (simp add: pace_scenario_def PacketsManager_init_def)
  show "AppendPackets 0 10 pace_scenario =
           Some (Inr (pace_scenario
                        \<lparr>packets := [entry Audio 5 True],
                         calls := [AppendPacket Video (es_packet 1 True),
                                   AppendPacket Audio (es_packet 2 True),
                                   AppendPacket Video (es_packet 3 False)]\<rparr>))"
    using s by (simp add: AppendPackets_def AppendPackets_loop_eq [OF k] t d c entry_def)
qed

theorem pace_delivers_witness:
  "\<not> seeking pace_scenario \<and>
   takeWhile (\<lambda>p. round_double (GetDts (packet p) - 0) < 4 \<and> GetDts (packet p) < 10)
     (packets pace_scenario) =
     [entry Video 1 True, entry Audio 2 True, entry Video 3 False] \<and>
   dropWhile (\<lambda>p. round_double (GetDts (packet p) - 0) < 4 \<and> GetDts (packet p) < 10)
     (packets pace_scenario) = [entry Audio 5 True] \<and>
   streams pace_scenario Video \<noteq> None \<and> streams pace_scenario Audio \<noteq> None \<and>
   AppendPackets 0 10 pace_scenario =
     Some (Inr (pace_scenario
       \<lparr>packets :=
          dropWhile (\<lambda>p. round_double (GetDts (packet p) - 0) < 4 \<and> GetDts (packet p) < 10)
            (packets pace_scenario),
        calls := calls pace_scenario @
          map (\<lambda>p. AppendPacket (type p) (packet p))
            (takeWhile (\<lambda>p. round_double (GetDts (packet p) - 0) < 4 \<and> GetDts (packet p) < 10)
               (packets pace_scenario))\<rparr>))"
proof -
  let ?due = "\<lambda>p. round_double (GetDts (packet p) - 0) < 4 \<and> GetDts (packet p) < 10"
  have s: "\<not> seeking pace_scenario"
    by (simp add: pace_scenario_def PacketsManager_init_def)
  have t: "takeWhile ?due (packets pace_scenario) =
      [entry Video 1 True, entry Audio 2 True, entry Video 3 False]"
    and d: "dropWhile ?due (packets pace_scenario) = [entry Audio 5 True]"
    by (simp_all add: pace_scenario_def round_double_less_4 entry_def es_packet_def)
  have v: "streams pace_scenario Video \<noteq> None" and a: "streams pace_scenario Audio \<noteq> None"
    by (simp_all add: pace_scenario_def)
  have k: "\<forall>p \<in> set (takeWhile ?due (packets pace_scenario)).
      streams pace_scenario (type p) \<noteq> None"
    unfolding t by (simp add: pace_scenario_def)
  from pace_delivers [OF s, of 0 10] k have
    "AppendPackets 0 10 pace_scenario =
     Some (Inr (pace_scenario
       \<lparr>packets := dropWhile ?due (packets pace_scenario),
        calls := calls pace_scenario @
          map (\<lambda>p. AppendPacket (type p) (packet p))
            (takeWhile ?due (packets pace_scenario))\<rparr>))"
    by blast
  with s t d v a show ?thesis
    by (simp only: simp_thms)
qed

text \<open>
  Claim C2, at the failing input: no seek is in progress, the only entry is an Audio packet
  at 1, it satisfies both pacing conditions for the playback time 0 and the buffered time
  10, and the slot of the Audio sink is empty. \<^verbatim>\<open>AppendPackets\<close> never returns:
  the branch for the missing sink logs the error and leaves the entry at the top, so the
  next round meets the same entry.
\<close>

theorem missing_sink_never_returns:
  "\<not> seeking missing_sink_state \<and>
   packets missing_sink_state = [entry Audio 1 True] \<and>
   streams missing_sink_state Audio = None \<and>
   may_append 0 10 (entry Audio 1 True) \<and>
   AppendPackets 0 10 missing_sink_state = None"
proof -
  have "AppendPackets_loop 0 10 missing_sink_state = None"
    by (rule AppendPackets_loop_diverges) (simp add: missing_sink_state_stuck)
  then show ?thesis
    by (simp add: AppendPackets_def missing_sink_state_def PacketsManager_init_def may_append_def
        append_condition_iff entry_def es_packet_def)
qed

text \<open>
  Claim C3, at the failing input: a manager gets an Audio sink, buffers an Audio packet at
  1 and loses the sink again. The next \<^verbatim>\<open>UpdateBuffer\<close> never returns.
\<close>

theorem update_never_returns:
  "run DBL_MAX missing_sink_calls PacketsManager_init = Some (Inr missing_sink_state) \<and>
   UpdateBuffer DBL_MAX 0 missing_sink_state = None \<and>
   run DBL_MAX (missing_sink_calls @ [CallUpdateBuffer 0]) PacketsManager_init = None"
proof -
  have b: "buffered_time_of DBL_MAX missing_sink_state = DBL_MAX"
    by (simp add: buffered_time_of_def missing_sink_state_def PacketsManager_init_def)
  have s: "\<not> seeking missing_sink_state"
    by (simp add: missing_sink_state_def PacketsManager_init_def)
  have l: "AppendPackets_loop 0 DBL_MAX missing_sink_state = None"
    by (rule AppendPackets_loop_diverges) (simp add: missing_sink_state_stuck one_less_DBL_MAX)
  have u: "UpdateBuffer DBL_MAX 0 missing_sink_state = None"
    by (simp add: UpdateBuffer_def b AppendPackets_def s l)
  have r: "run DBL_MAX missing_sink_calls PacketsManager_init = Some (Inr missing_sink_state)"
    by (rule missing_sink_reached)
  have "run DBL_MAX (cs @ [CallUpdateBuffer 0]) st = None"
    if "run DBL_MAX cs st = Some (Inr missing_sink_state)" for cs st
    using that
    by (induction cs arbitrary: st) (auto simp: u split: option.splits sum.splits)
  from this [OF r] u r show ?thesis by simp
qed

section \<open>No delivery during a seek\<close>



end
